theory Spec2Isabelle
  imports Main "HOL-Library.Sublist"
begin

section \<open>The node tree\<close>

text \<open>
  The linker of wollok-ts (\<^verbatim>\<open>src/linker.ts\<close>) works on a tree of nodes. Every node
  has a kind tag; the kinds are the ones the builders of \<^verbatim>\<open>src/builders.ts\<close> create.
  A node is one uniform constructor holding the fields the linker reads: \<open>kind\<close>,
  \<open>id\<close>, the optional \<open>name\<close>, \<open>isGeneric\<close> (of an Import), \<open>source\<close> (printed
  in the error for an unlinked Reference, kept as the printed text), and the child nodes,
  split as the linker reads them: the \<open>imports\<close> of a package, the \<open>members\<close> of an
  environment, package, module or describe, and every other child node in \<open>parts\<close>
  (the Reference of an Import, the superclass and mixin References of a module,
  parameters, bodies, sentences, ...). A node that has not been given an id yet carries
  a value there that nothing reads.
\<close>

type_synonym name = string
type_synonym id = nat

datatype kind =
    Reference | Parameter | NamedArgument | Import | Body
  | Package | Class | Singleton | Mixin | Program | Test | Describe
  | Field | Method | Constructor | Fixture
  | Variable | Return | Assignment
  | Self | Literal | Send | Super | New | If' | Throw | Try | Catch
  | Environment

datatype node = Node
  (kind: kind) (id': id) (name: "name option") (isGeneric: bool) (source: string)
  (imports': "node list") (members: "node list") (parts: "node list")

text \<open>\<^verbatim>\<open>new Package({ ...existent, members })\<close>: every field of the node but \<open>members\<close>.\<close>

definition withMembers :: "node \<Rightarrow> node list \<Rightarrow> node" where
  "withMembers n ms =
     Node (kind n) (id' n) (name n) (isGeneric n) (source n) (imports' n) ms (parts n)"

definition withImports :: "node \<Rightarrow> node list \<Rightarrow> node" where
  "withImports n is =
     Node (kind n) (id' n) (name n) (isGeneric n) (source n) is (members n) (parts n)"

text \<open>
  Modelled from the spec: the categories of \<^verbatim>\<open>node.is(...)\<close> (declared in the model
  module, which is not among the sources). The glossary of the spec: an Entity is a
  package, class, mixin, singleton, program or test; a Module is a class, mixin or
  singleton.
\<close>

definition isEntity :: "node \<Rightarrow> bool" where
  "isEntity n = (kind n \<in> {Package, Class, Mixin, Singleton, Program, Test})"

definition isModule :: "node \<Rightarrow> bool" where
  "isModule n = (kind n \<in> {Class, Mixin, Singleton})"

text \<open>The kinds whose builders give them a \<open>members\<close> list.\<close>

definition hasMembers :: "node \<Rightarrow> bool" where
  "hasMembers n = (kind n \<in> {Environment, Package, Class, Singleton, Mixin, Describe})"

text \<open>The Reference an Import holds (\<^verbatim>\<open>imported.entity\<close>): its one child node.\<close>

definition entity :: "node \<Rightarrow> node option" where
  "entity imported = (case parts imported of [] \<Rightarrow> None | reference # _ \<Rightarrow> Some reference)"

section \<open>Merging\<close>

text \<open>
  \<^verbatim>\<open>mergePackage(members, isolated)\<close>, lines 14--27. \<^verbatim>\<open>members.find\<close> yields the
  first package of the same name; \<^verbatim>\<open>members.filter(member => member !== existent)\<close>
  compares object identities, and the members of a list are distinct objects, so it
  drops exactly the element \<open>find\<close> returned: \<open>remove1\<close>. \<^verbatim>\<open>reduce(mergePackage, init)\<close>
  is the left fold.
\<close>

function mergePackage :: "node list \<Rightarrow> node \<Rightarrow> node list" where
  "mergePackage ms isolated =
     (if kind isolated \<noteq> Package
      then filter (\<lambda>m. name m \<noteq> name isolated) ms @ [isolated]
      else (case find (\<lambda>member. kind member = Package \<and> name member = name isolated) ms of
              Some existent \<Rightarrow>
                remove1 existent ms @
                [withMembers existent
                   (fold (\<lambda>m acc. mergePackage acc m) (members isolated) (members existent))]
            | None \<Rightarrow> ms @ [isolated]))"
  by pat_completeness auto
termination
proof (relation "measure (\<lambda>(ms, isolated). size isolated)")
  show "wf (measure (\<lambda>(ms, isolated). size isolated))" by simp
next
  fix ms :: "node list" and isolated x2 x :: node and xa :: "node list"
  assume "x \<in> set (members isolated)"
  then have "size x < size isolated"
    by (cases isolated)
       (auto simp: less_Suc_eq_le dest!: size_list_estimation'[where f=size and y="size x"])
  then show "((xa, x), (ms, isolated)) \<in> measure (\<lambda>(ms, isolated). size isolated)" by simp
qed

text \<open>The whole reduction of line 136.\<close>

definition mergeAll :: "node list \<Rightarrow> node list \<Rightarrow> node list" where
  "mergeAll newPackages base = fold (\<lambda>isolated acc. mergePackage acc isolated) newPackages base"

text \<open>
  Names without collisions at every level: the names of a list are pairwise different,
  and so are the names inside each of its packages.
\<close>

function distinctNames :: "node list \<Rightarrow> bool" where
  "distinctNames ms =
     (distinct (map name ms) \<and> list_all (\<lambda>m. kind m = Package \<longrightarrow> distinctNames (members m)) ms)"
  by pat_completeness auto
termination
proof (relation "measure (size_list size)")
  show "wf (measure (size_list (size :: node \<Rightarrow> nat)))" by simp
next
  fix ms :: "node list" and m :: node
  assume "m \<in> set ms"
  then have "size m \<le> size_list size ms"
    by (simp add: size_list_estimation' [where f = size and y = "size m"])
  moreover have "size_list size (members m) < size m"
    by (cases m) simp
  ultimately show "(members m, ms) \<in> measure (size_list size)" by simp
qed

section \<open>Scopes\<close>

text \<open>
  A \<^verbatim>\<open>LocalScope\<close> object (lines 33--65) has three fields. \<open>containerScope\<close> is set
  by the constructor and never assigned again, so it is part of the reference to the
  object: a scope reference names the owner the scope was created for (a node, or the
  auxiliary import scope of a package) and its container. The two mutable fields,
  \<open>contributions\<close> and \<open>includedScopes\<close>, live in a heap indexed by scope references.
  Included scopes are references, so they may be shared and may form cycles, as in the
  program.
\<close>

datatype owner = OfNode id | OfImports id

datatype scope = LocalScope (owner: owner) (containerScope: "scope option")

record scopeFields =
  contributions :: "name \<rightharpoonup> node"
  includedScopes :: "scope list"

definition emptyFields :: scopeFields where
  "emptyFields = \<lparr> contributions = Map.empty, includedScopes = [] \<rparr>"

text \<open>\<^verbatim>\<open>register\<close>, lines 39--42: one \<^verbatim>\<open>Map.set\<close> per contribution, in order.\<close>

definition register :: "(name \<times> node) list \<Rightarrow> scopeFields \<Rightarrow> scopeFields" where
  "register cs this =
     this\<lparr> contributions :=
       fold (\<lambda>contribution m. m(fst contribution \<mapsto> snd contribution)) cs (contributions this) \<rparr>"

text \<open>The loop of lines 48--51: the first result that is defined.\<close>

fun firstDefined :: "('a \<Rightarrow> 'b option) \<Rightarrow> 'a list \<Rightarrow> 'b option" where
  "firstDefined f [] = None"
| "firstDefined f (x # xs) = (case f x of Some y \<Rightarrow> Some y | None \<Rightarrow> firstDefined f xs)"

text \<open>
  \<^verbatim>\<open>resolve\<close>, lines 44--54. A node is an object and hence truthy, so
  \<^verbatim>\<open>contributed || !allowLookup\<close> reads: a binding was found, or lookup is off.
\<close>

function resolve :: "(scope \<Rightarrow> scopeFields) \<Rightarrow> scope \<Rightarrow> name \<Rightarrow> bool \<Rightarrow> node option" where
  "resolve h this n allowLookup =
     (let contributed = contributions (h this) n in
      if contributed \<noteq> None \<or> \<not> allowLookup then contributed
      else (case firstDefined (\<lambda>includedScope. resolve h includedScope n False)
                   (includedScopes (h this)) of
              Some inherited \<Rightarrow> Some inherited
            | None \<Rightarrow> (case containerScope this of
                         None \<Rightarrow> None
                       | Some container \<Rightarrow> resolve h container n allowLookup)))"
  by pat_completeness auto
termination
proof (relation "measures [\<lambda>(h, this, n, allowLookup). if allowLookup then 1 else 0,
                           \<lambda>(h, this, n, allowLookup). size this]")
  show "wf (measures [\<lambda>(h :: scope \<Rightarrow> scopeFields, this :: scope, n :: name, allowLookup).
                         if allowLookup then 1 else 0,
                      \<lambda>(h, this, n, allowLookup). size this])" by simp
next
  fix h :: "scope \<Rightarrow> scopeFields" and this :: scope and n :: name and allowLookup :: bool
    and x :: "node option" and xa :: scope
  assume "\<not> (x \<noteq> None \<or> \<not> allowLookup)"
  then show "((h, xa, n, False), (h, this, n, allowLookup))
      \<in> measures [\<lambda>(h, this, n, allowLookup). if allowLookup then 1 else 0,
                  \<lambda>(h, this, n, allowLookup). size this]" by simp
next
  fix h :: "scope \<Rightarrow> scopeFields" and this :: scope and n :: name and allowLookup :: bool
    and x :: "node option" and x2 :: scope
  assume "containerScope this = Some x2"
  then have "size x2 < size this" by (cases this) simp
  then show "((h, x2, n, allowLookup), (h, this, n, allowLookup))
      \<in> measures [\<lambda>(h, this, n, allowLookup). if allowLookup then 1 else 0,
                  \<lambda>(h, this, n, allowLookup). size this]" by simp
qed

section \<open>The state of a link operation\<close>

text \<open>
  What the linker attaches to nodes after their construction: the \<open>scope\<close> slot of each
  node, the heap of scope fields, and the caches filled in lines 139--143
  (\<^verbatim>\<open>parent()\<close>, \<^verbatim>\<open>environment()\<close>, \<^verbatim>\<open>getNodeById(id)\<close>). Slots and caches are keyed
  by the id of the node.
\<close>

datatype error =
    CouldNotResolve name
  | UnlinkedReference "name option" string
  | MissingParent id
  | MissingNode id
  | TypeError

record linkState =
  scopeOf :: "id \<rightharpoonup> scope"
  heap :: "scope \<Rightarrow> scopeFields"
  parentOf :: "id \<rightharpoonup> node"
  environmentOf :: "id \<rightharpoonup> node"
  nodeById :: "id \<rightharpoonup> node"

definition emptyState :: linkState where
  "emptyState = \<lparr> scopeOf = Map.empty, heap = (\<lambda>_. emptyFields), parentOf = Map.empty,
                   environmentOf = Map.empty, nodeById = Map.empty \<rparr>"

definition bindE :: "error + 'a \<Rightarrow> ('a \<Rightarrow> error + 'b) \<Rightarrow> error + 'b" where
  "bindE r f = (case r of Inl e \<Rightarrow> Inl e | Inr x \<Rightarrow> f x)"

fun foldE :: "('a \<Rightarrow> 's \<Rightarrow> error + 's) \<Rightarrow> 'a list \<Rightarrow> 's \<Rightarrow> error + 's" where
  "foldE f [] s = Inr s"
| "foldE f (x # xs) s = bindE (f x s) (foldE f xs)"

fun mapE :: "('a \<Rightarrow> error + 'b) \<Rightarrow> 'a list \<Rightarrow> error + 'b list" where
  "mapE f [] = Inr []"
| "mapE f (x # xs) = bindE (f x) (\<lambda>y. bindE (mapE f xs) (\<lambda>ys. Inr (y # ys)))"

text \<open>Reading \<^verbatim>\<open>node.scope\<close> in order to use it: a TypeError when the slot is empty.\<close>

definition getScope :: "linkState \<Rightarrow> node \<Rightarrow> error + scope" where
  "getScope st n = (case scopeOf st (id' n) of None \<Rightarrow> Inl TypeError | Some s \<Rightarrow> Inr s)"

text \<open>\<^verbatim>\<open>new LocalScope(containerScope)\<close>: a fresh object with empty fields.\<close>

definition newLocalScope :: "owner \<Rightarrow> scope option \<Rightarrow> linkState \<Rightarrow> scope \<times> linkState" where
  "newLocalScope ow container st =
     (let s = LocalScope ow container in (s, st\<lparr> heap := (heap st)(s := emptyFields) \<rparr>))"

definition registerAt :: "scope \<Rightarrow> (name \<times> node) list \<Rightarrow> linkState \<Rightarrow> linkState" where
  "registerAt s cs st = st\<lparr> heap := (heap st)(s := register cs (heap st s)) \<rparr>"

text \<open>
  Modelled from the spec: \<^verbatim>\<open>divideOn\<close> (of the extensions module, which is not among the
  sources) splits the name at its first separator into head and rest; the rest is empty
  when there is no separator.
\<close>

definition divideOn :: "char \<Rightarrow> string \<Rightarrow> string \<times> string" where
  "divideOn separator str =
     (takeWhile (\<lambda>c. c \<noteq> separator) str, drop 1 (dropWhile (\<lambda>c. c \<noteq> separator) str))"

text \<open>
  \<^verbatim>\<open>resolveQualified\<close>, lines 57--64. \<^verbatim>\<open>root.scope\<close> reads the scope slot of the node
  that was found.
\<close>

function resolveQualified :: "linkState \<Rightarrow> scope \<Rightarrow> name \<Rightarrow> bool \<Rightarrow> error + node" where
  "resolveQualified st this qualifiedName allowLookup =
     (case divideOn CHR ''.'' qualifiedName of
        (start, rest) \<Rightarrow>
          (case resolve (heap st) this start allowLookup of
             None \<Rightarrow> Inl (CouldNotResolve start)
           | Some root \<Rightarrow>
               if rest \<noteq> []
               then (case scopeOf st (id' root) of
                       None \<Rightarrow> Inl TypeError
                     | Some rootScope \<Rightarrow> resolveQualified st rootScope rest False)
               else Inr root))"
  by pat_completeness auto
termination
proof (relation "measure (\<lambda>(st, this, qualifiedName, allowLookup). length qualifiedName)")
  fix qualifiedName start rest :: name
  assume divided: "(start, rest) = divideOn CHR ''.'' qualifiedName" and more: "rest \<noteq> []"
  have "length rest < length (dropWhile (\<lambda>c. c \<noteq> CHR ''.'') qualifiedName)"
    using divided more
    by (cases "dropWhile (\<lambda>c. c \<noteq> CHR ''.'') qualifiedName") (auto simp: divideOn_def)
  also have "\<dots> \<le> length qualifiedName" by (rule length_dropWhile_le)
  finally show "((st, rootScope, rest, False), (st, this, qualifiedName, allowLookup))
        \<in> measure (\<lambda>(st, this, qualifiedName, allowLookup). length qualifiedName)"
    for st :: linkState and rootScope this :: scope and allowLookup :: bool
    by simp
qed simp

text \<open>\<^verbatim>\<open>scopeContribution\<close>, lines 68--76; the empty name is falsy.\<close>

definition scopeContribution :: "node \<Rightarrow> (name \<times> node) list" where
  "scopeContribution contributor =
     (if isEntity contributor \<or> kind contributor = Field \<or> kind contributor = Parameter
      then (case name contributor of
              Some nm \<Rightarrow> if nm \<noteq> [] then [(nm, contributor)] else []
            | None \<Rightarrow> [])
      else [])"

section \<open>Traversal and identities\<close>

definition children :: "node \<Rightarrow> node list" where
  "children n = imports' n @ members n @ parts n"

text \<open>
  Modelled from the spec: \<^verbatim>\<open>forEach\<close> (of the model module, which is not among the
  sources) is a single full traversal in (node, parent) pairs, in top-down order: a node
  comes before its children, the root has no parent.
\<close>

function traversal :: "node option \<Rightarrow> node \<Rightarrow> (node \<times> node option) list" where
  "traversal parent n = (n, parent) # concat (map (traversal (Some n)) (children n))"
  by pat_completeness auto
termination
proof (relation "measure (\<lambda>(parent, n). size n)")
  show "wf (measure (\<lambda>(parent :: node option, n :: node). size n))" by simp
next
  fix parent :: "node option" and n x :: node
  assume "x \<in> set (children n)"
  then have "size x < size n"
    by (cases n)
       (auto simp: children_def less_Suc_eq_le
             dest!: size_list_estimation'[where f=size and y="size x"])
  then show "((Some n, x), (parent, n)) \<in> measure (\<lambda>(parent, n). size n)" by simp
qed

definition forEach :: "(node \<Rightarrow> node option \<Rightarrow> 's \<Rightarrow> error + 's) \<Rightarrow> node \<Rightarrow> 's \<Rightarrow> error + 's" where
  "forEach tx root s = foldE (\<lambda>(node, parent). tx node parent) (traversal None root) s"

text \<open>
  Modelled from the spec: \<^verbatim>\<open>transform(node => node.copy({ id: uuid() }))\<close> rebuilds the
  whole tree, giving every node a freshly generated id. The id generator is the
  parameter \<open>uuid\<close>: \<open>uuid k\<close> is the result of the \<open>k\<close>-th call.
\<close>

fun transformIds :: "(nat \<Rightarrow> id) \<Rightarrow> nat \<Rightarrow> node \<Rightarrow> node \<times> nat"
  and transformAll :: "(nat \<Rightarrow> id) \<Rightarrow> nat \<Rightarrow> node list \<Rightarrow> node list \<times> nat" where
  "transformIds uuid k (Node kd i nm g src is ms ps) =
     (case transformAll uuid (Suc k) is of
        (is', k1) \<Rightarrow>
          (case transformAll uuid k1 ms of
             (ms', k2) \<Rightarrow>
               (case transformAll uuid k2 ps of
                  (ps', k3) \<Rightarrow> (Node kd (uuid k) nm g src is' ms' ps', k3))))"
| "transformAll uuid k [] = ([], k)"
| "transformAll uuid k (n # ns) =
     (case transformIds uuid k n of
        (n', k1) \<Rightarrow> (case transformAll uuid k1 ns of (ns', k2) \<Rightarrow> (n' # ns', k2)))"

section \<open>Scope assignment\<close>

text \<open>
  The first callback of \<^verbatim>\<open>assignScopes\<close>, lines 80--89. \<^verbatim>\<open>parent!.parent()\<close> reads
  the parent cache and throws when it is empty; \<^verbatim>\<open>parent?.scope\<close> of an absent parent
  is undefined.
\<close>

definition scopeSkeleton :: "node \<Rightarrow> node option \<Rightarrow> linkState \<Rightarrow> error + linkState" where
  "scopeSkeleton node parent st =
     bindE
       (if kind node = Reference
        then (case parent of
                None \<Rightarrow> Inl TypeError
              | Some p \<Rightarrow>
                  if kind p = Class \<or> kind p = Mixin
                  then (case parentOf st (id' p) of
                          None \<Rightarrow> Inl (MissingParent (id' p))
                        | Some grandparent \<Rightarrow> Inr (scopeOf st (id' grandparent)))
                  else Inr (scopeOf st (id' p)))
        else Inr (case parent of None \<Rightarrow> None | Some p \<Rightarrow> scopeOf st (id' p)))
       (\<lambda>container.
          case newLocalScope (OfNode (id' node)) container st of
            (scope, st1) \<Rightarrow>
              let st2 = st1\<lparr> scopeOf := (scopeOf st1)(id' node \<mapsto> scope) \<rparr> in
              if isEntity node
              then (case parent of
                      None \<Rightarrow> Inl TypeError
                    | Some p \<Rightarrow>
                        bindE (getScope st2 p)
                          (\<lambda>parentScope. Inr (registerAt parentScope (scopeContribution node) st2)))
              else Inr st2)"

definition GLOBAL_PACKAGES :: "name list" where
  "GLOBAL_PACKAGES = [''wollok.lang'', ''wollok.lib'']"

text \<open>Lines 92--95: the members of the global packages, registered in the environment.\<close>

definition registerGlobals :: "node \<Rightarrow> node \<Rightarrow> linkState \<Rightarrow> error + linkState" where
  "registerGlobals environment node st =
     bindE (getScope st node) (\<lambda>nodeScope.
     bindE (mapE (\<lambda>globalPackage.
               bindE (getScope st environment) (\<lambda>environmentScope.
               bindE (resolveQualified st environmentScope globalPackage True) (\<lambda>package.
               if hasMembers package
               then Inr (concat (map scopeContribution (members package)))
               else Inl TypeError)))
            GLOBAL_PACKAGES) (\<lambda>contributions.
     Inr (registerAt nodeScope (concat contributions) st)))"

text \<open>\<^verbatim>\<open>imported.scope.resolveQualified(imported.entity.name)\<close>, lines 104 and 109.\<close>

definition importedEntity :: "linkState \<Rightarrow> node \<Rightarrow> error + node" where
  "importedEntity st imported =
     bindE (getScope st imported) (\<lambda>importedScope.
       case entity imported of
         None \<Rightarrow> Inl TypeError
       | Some reference \<Rightarrow>
           (case name reference of
              None \<Rightarrow> Inl TypeError
            | Some qualifiedName \<Rightarrow> resolveQualified st importedScope qualifiedName True))"

text \<open>
  Lines 97--111. Modelled from the spec: \<^verbatim>\<open>discriminate\<close> (of the extensions module)
  partitions the imports into the generic and the simple ones, each in declaration
  order. An entity without a name would be stored under the key \<^verbatim>\<open>undefined\<close>, which no
  lookup by name reaches: it contributes nothing. The scope slot of a resolved node is
  read when the included scopes are built; every node of the tree has its scope by then.
\<close>

definition linkImports :: "node \<Rightarrow> linkState \<Rightarrow> error + linkState" where
  "linkImports node st =
     (let genericImports = filter isGeneric (imports' node);
          simpleImports = filter (\<lambda>imported. \<not> isGeneric imported) (imports' node)
      in case newLocalScope (OfImports (id' node)) None st of
           (importScope, st1) \<Rightarrow>
             bindE (mapE (importedEntity st1) simpleImports) (\<lambda>entities.
             let st2 = registerAt importScope
                         (concat (map (\<lambda>entity. case name entity of
                                                   Some nm \<Rightarrow> [(nm, entity)]
                                                 | None \<Rightarrow> []) entities)) st1
             in bindE (getScope st2 node) (\<lambda>packageScope.
                bindE (mapE (\<lambda>imported. bindE (importedEntity st2 imported) (getScope st2))
                         genericImports) (\<lambda>genericScopes.
                Inr (st2\<lparr> heap := (heap st2)(packageScope := (heap st2 packageScope)
                          \<lparr> includedScopes :=
                              importScope # genericScopes @ includedScopes (heap st2 packageScope) \<rparr>) \<rparr>)))))"

text \<open>
  Lines 113--117. \<^verbatim>\<open>hierarchy()\<close> belongs to the model module, which is not among the
  sources: it is the parameter \<open>hierarchy\<close>, which may read the state and may fail.
\<close>

definition includeAncestors ::
  "(linkState \<Rightarrow> node \<Rightarrow> error + node list) \<Rightarrow> node \<Rightarrow> linkState \<Rightarrow> error + linkState" where
  "includeAncestors hierarchy node st =
     bindE (getScope st node) (\<lambda>nodeScope.
     bindE (hierarchy st node) (\<lambda>ancestors.
     bindE (mapE (getScope st) (drop 1 ancestors)) (\<lambda>ancestorScopes.
     Inr (st\<lparr> heap := (heap st)(nodeScope := (heap st nodeScope)
               \<lparr> includedScopes := includedScopes (heap st nodeScope) @ ancestorScopes \<rparr>) \<rparr>))))"

text \<open>The second callback of \<^verbatim>\<open>assignScopes\<close>, lines 91--120.\<close>

definition crossLinks ::
  "(linkState \<Rightarrow> node \<Rightarrow> error + node list) \<Rightarrow> node \<Rightarrow> node \<Rightarrow> node option \<Rightarrow> linkState
     \<Rightarrow> error + linkState" where
  "crossLinks hierarchy environment node parent st =
     bindE (if kind node = Environment then registerGlobals environment node st else Inr st)
       (\<lambda>st1.
     bindE (if kind node = Package \<and> imports' node \<noteq> [] then linkImports node st1 else Inr st1)
       (\<lambda>st2.
     bindE (if isModule node then includeAncestors hierarchy node st2 else Inr st2)
       (\<lambda>st3.
     case parent of
       Some p \<Rightarrow>
         if \<not> isEntity node
         then bindE (getScope st3 p)
                (\<lambda>parentScope. Inr (registerAt parentScope (scopeContribution node) st3))
         else Inr st3
     | None \<Rightarrow> Inr st3)))"

definition assignScopes ::
  "(linkState \<Rightarrow> node \<Rightarrow> error + node list) \<Rightarrow> node \<Rightarrow> linkState \<Rightarrow> error + linkState" where
  "assignScopes hierarchy environment st =
     bindE (forEach scopeSkeleton environment st)
       (forEach (crossLinks hierarchy environment) environment)"

section \<open>The linker\<close>

text \<open>Lines 139--143: the caches.\<close>

definition fillCaches :: "node \<Rightarrow> node \<Rightarrow> node option \<Rightarrow> linkState \<Rightarrow> error + linkState" where
  "fillCaches environment node parent st =
     (let st1 = (case parent of
                   Some p \<Rightarrow> st\<lparr> parentOf := (parentOf st)(id' node \<mapsto> p) \<rparr>
                 | None \<Rightarrow> st)
      in Inr (st1\<lparr> environmentOf := (environmentOf st1)(id' node \<mapsto> environment),
                   nodeById := (nodeById st1)(id' node \<mapsto> node) \<rparr>))"

text \<open>
  Modelled from the spec: \<^verbatim>\<open>getNodeById\<close> (of the model module) looks the id up in the
  index and fails for an id that is not present.
\<close>

definition getNodeById :: "linkState \<Rightarrow> id \<Rightarrow> error + node" where
  "getNodeById st i = (case nodeById st i of None \<Rightarrow> Inl (MissingNode i) | Some n \<Rightarrow> Inr n)"

text \<open>
  Modelled from the spec: \<^verbatim>\<open>target()\<close> of a Reference (of the model module, which is
  not among the sources) resolves the name of the reference, which may be qualified,
  starting from the reference's own scope: the head by \<^verbatim>\<open>resolve\<close> with lookup, every
  further segment among the own bindings of the node found so far, as the qualified
  resolution of lines 57--64 does. It yields no target when the name does not resolve; the
  validation of lines 148--151 then reports the Reference.
\<close>

definition target :: "linkState \<Rightarrow> node \<Rightarrow> error + node option" where
  "target st reference =
     bindE (getScope st reference) (\<lambda>referenceScope.
       Inr (case name reference of
              None \<Rightarrow> None
            | Some qualifiedName \<Rightarrow>
                (case resolveQualified st referenceScope qualifiedName True of
                   Inl failure \<Rightarrow> None
                 | Inr found \<Rightarrow> Some found)))"

text \<open>Lines 148--151.\<close>

definition validate :: "node \<Rightarrow> node option \<Rightarrow> linkState \<Rightarrow> error + linkState" where
  "validate node parent st =
     (if kind node = Reference
      then bindE (target st node) (\<lambda>found.
             case found of
               None \<Rightarrow> Inl (UnlinkedReference (name node) (source node))
             | Some _ \<Rightarrow> Inr st)
      else Inr st)"

text \<open>
  The default export, lines 128--154. The first \<open>uuid\<close> call makes the id of the new
  Environment, the calls of the transformation follow.
\<close>

definition newEnvironment :: "(nat \<Rightarrow> id) \<Rightarrow> node list \<Rightarrow> node option \<Rightarrow> node" where
  "newEnvironment uuid newPackages baseEnvironment =
     fst (transformIds uuid 1
            (Node Environment (uuid 0) None False []
               []
               (mergeAll newPackages (case baseEnvironment of None \<Rightarrow> [] | Some base \<Rightarrow> members base))
               []))"

definition link ::
  "(nat \<Rightarrow> id) \<Rightarrow> (linkState \<Rightarrow> node \<Rightarrow> error + node list) \<Rightarrow> node list \<Rightarrow> node option
     \<Rightarrow> error + node \<times> linkState" where
  "link uuid hierarchy newPackages baseEnvironment =
     (let environment = newEnvironment uuid newPackages baseEnvironment in
      bindE (forEach (fillCaches environment) environment emptyState) (\<lambda>st1.
      bindE (assignScopes hierarchy environment st1) (\<lambda>st2.
      bindE (forEach validate environment st2) (\<lambda>st3.
      Inr (environment, st3)))))"

section \<open>Specification functions and example nodes\<close>

text \<open>
  What a qualified path can reach when only the own bindings of each entity on the way
  are consulted: the contributions table of the scope and the scope slot of the node
  found, never included scopes or containers.
\<close>

function ownMembersPath :: "linkState \<Rightarrow> scope \<Rightarrow> name \<Rightarrow> error + node" where
  "ownMembersPath st this qualifiedName =
     (case divideOn CHR ''.'' qualifiedName of
        (start, rest) \<Rightarrow>
          (case contributions (heap st this) start of
             None \<Rightarrow> Inl (CouldNotResolve start)
           | Some root \<Rightarrow>
               if rest \<noteq> []
               then (case scopeOf st (id' root) of
                       None \<Rightarrow> Inl TypeError
                     | Some rootScope \<Rightarrow> ownMembersPath st rootScope rest)
               else Inr root))"
  by pat_completeness auto
termination
proof (relation "measure (\<lambda>(st, this, qualifiedName). length qualifiedName)")
  fix qualifiedName start rest :: name
  assume divided: "(start, rest) = divideOn CHR ''.'' qualifiedName" and more: "rest \<noteq> []"
  have "length rest < length (dropWhile (\<lambda>c. c \<noteq> CHR ''.'') qualifiedName)"
    using divided more
    by (cases "dropWhile (\<lambda>c. c \<noteq> CHR ''.'') qualifiedName") (auto simp: divideOn_def)
  also have "\<dots> \<le> length qualifiedName" by (rule length_dropWhile_le)
  finally show "((st, rootScope, rest), (st, this, qualifiedName))
        \<in> measure (\<lambda>(st, this, qualifiedName). length qualifiedName)"
    for st :: linkState and rootScope this :: scope
    by simp
qed simp

text \<open>Nodes as the builders make them, before they have ids.\<close>

abbreviation aPackage :: "name \<Rightarrow> node list \<Rightarrow> node list \<Rightarrow> node" where
  "aPackage nm is ms \<equiv> Node Package 0 (Some nm) False [] is ms []"

abbreviation aClass :: "name \<Rightarrow> node list \<Rightarrow> node" where
  "aClass nm ms \<equiv> Node Class 0 (Some nm) False [] [] ms []"

abbreviation aMixin :: "name \<Rightarrow> node list \<Rightarrow> node" where
  "aMixin nm ms \<equiv> Node Mixin 0 (Some nm) False [] [] ms []"

abbreviation anImport :: "bool \<Rightarrow> name \<Rightarrow> node" where
  "anImport generic nm \<equiv>
     Node Import 0 None generic [] [] [] [Node Reference 0 (Some nm) False [] [] [] []]"

text \<open>
  Scopes to look a name up in. The scope \<open>lookupHere\<close> has no binding of its own and
  includes three scopes: the first has no binding of its own, although the scope it includes
  and its container have one; the second and the third have one. The scope \<open>lookupOuter\<close>
  includes only a scope without a binding of its own; its container has one.
\<close>

definition lookupTop :: scope where
  "lookupTop = LocalScope (OfNode 1) None"

definition lookupHere :: scope where
  "lookupHere = LocalScope (OfNode 2) (Some lookupTop)"

definition lookupFar :: scope where
  "lookupFar = LocalScope (OfNode 5) None"

definition lookupFirst :: scope where
  "lookupFirst = LocalScope (OfNode 3) (Some lookupTop)"

definition lookupSecond :: scope where
  "lookupSecond = LocalScope (OfNode 4) None"

definition lookupThird :: scope where
  "lookupThird = LocalScope (OfNode 6) None"

definition lookupOuter :: scope where
  "lookupOuter = LocalScope (OfNode 7) (Some lookupTop)"

definition lookupHeap :: "scope \<Rightarrow> scopeFields" where
  "lookupHeap =
     (\<lambda>s. emptyFields)
       (lookupTop := register [(''n'', aClass ''top'' [])] emptyFields,
        lookupHere := emptyFields\<lparr> includedScopes := [lookupFirst, lookupSecond, lookupThird] \<rparr>,
        lookupOuter := emptyFields\<lparr> includedScopes := [lookupFirst] \<rparr>,
        lookupFirst := emptyFields\<lparr> includedScopes := [lookupFar] \<rparr>,
        lookupFar := register [(''n'', aClass ''far'' [])] emptyFields,
        lookupSecond := register [(''n'', aClass ''second'' [])] emptyFields,
        lookupThird := register [(''n'', aClass ''third'' [])] emptyFields)"

section \<open>Properties of the passes\<close>

text \<open>The nodes of a tree, in the order \<^verbatim>\<open>forEach\<close> visits them.\<close>

definition nodes :: "node \<Rightarrow> node list" where
  "nodes root = map fst (traversal None root)"

text \<open>
  Every parent in the list of visits is a node visited before (or one of \<open>seen\<close>).
\<close>

fun parentsFirst :: "node list \<Rightarrow> (node \<times> node option) list \<Rightarrow> bool" where
  "parentsFirst seen [] = True"
| "parentsFirst seen (x # rest) =
     ((case snd x of None \<Rightarrow> True | Some p \<Rightarrow> p \<in> set seen) \<and> parentsFirst (fst x # seen) rest)"

text \<open>
  The caches of lines 139--143 are the same in two states; so are, in addition, the scope slots.
\<close>

definition sameCaches :: "linkState \<Rightarrow> linkState \<Rightarrow> bool" where
  "sameCaches st st' =
     (parentOf st' = parentOf st \<and> environmentOf st' = environmentOf st \<and> nodeById st' = nodeById st)"

definition sameSlots :: "linkState \<Rightarrow> linkState \<Rightarrow> bool" where
  "sameSlots st st' = (scopeOf st' = scopeOf st \<and> sameCaches st st')"

text \<open>The container that lines 81--85 choose for the new scope of a node, read in a state.\<close>

definition containerRule :: "linkState \<Rightarrow> node \<Rightarrow> node option \<Rightarrow> scope option \<Rightarrow> bool" where
  "containerRule st n po c =
     (case po of
        None \<Rightarrow> c = None
      | Some p \<Rightarrow>
          if kind n = Reference \<and> (kind p = Class \<or> kind p = Mixin)
          then (\<exists>grandparent. parentOf st (id' p) = Some grandparent
                  \<and> c = scopeOf st (id' grandparent))
          else c = scopeOf st (id' p))"

text \<open>
  The state after lines 81--86 for a node whose new scope has the container \<open>c\<close>.
\<close>

definition allocated :: "node \<Rightarrow> scope option \<Rightarrow> linkState \<Rightarrow> linkState" where
  "allocated n c st =
     st\<lparr> heap := (heap st)(LocalScope (OfNode (id' n)) c := emptyFields),
         scopeOf := (scopeOf st)(id' n \<mapsto> LocalScope (OfNode (id' n)) c) \<rparr>"

text \<open>
  The import scope of a package (line 101), the bindings of a list of imported entities
  (lines 103--106), and the state after lines 103--110.
\<close>

definition importScopeOf :: "node \<Rightarrow> scope" where
  "importScopeOf n = LocalScope (OfImports (id' n)) None"

definition entityBindings :: "node list \<Rightarrow> (name \<times> node) list" where
  "entityBindings entities =
     concat (map (\<lambda>entity. case name entity of Some nm \<Rightarrow> [(nm, entity)] | None \<Rightarrow> []) entities)"

definition importsLinked :: "node \<Rightarrow> scope \<Rightarrow> node list \<Rightarrow> scope list \<Rightarrow> linkState \<Rightarrow> linkState" where
  "importsLinked n ps entities gs st =
     st\<lparr> heap :=
       ((heap st)(importScopeOf n := register (entityBindings entities) emptyFields))
         (ps := (((heap st)(importScopeOf n := register (entityBindings entities) emptyFields)) ps)
                  \<lparr> includedScopes :=
                      importScopeOf n # gs
                      @ includedScopes (((heap st)(importScopeOf n := register (entityBindings entities) emptyFields)) ps) \<rparr>) \<rparr>"

text \<open>
  The \<^verbatim>\<open>parent()\<close> cache holds the parent of every node of the tree, as lines 139--143 leave it.
\<close>

definition parentsCached :: "node \<Rightarrow> linkState \<Rightarrow> bool" where
  "parentsCached root st = (\<forall>x \<in> set (traversal None root). parentOf st (id' (fst x)) = snd x)"

text \<open>
  What the first pass has done for the visits of a list: each node has its own scope, with
  the container of lines 81--85 and no included scope yet.
\<close>

definition skeletonBuilt :: "(node \<times> node option) list \<Rightarrow> linkState \<Rightarrow> bool" where
  "skeletonBuilt xs st =
     (\<forall>x \<in> set xs. \<exists>c.
         scopeOf st (id' (fst x)) = Some (LocalScope (OfNode (id' (fst x))) c)
       \<and> containerRule st (fst x) (snd x) c
       \<and> includedScopes (heap st (LocalScope (OfNode (id' (fst x))) c)) = [])"

text \<open>
  The first three parts of a step of the second pass touch only the node's own scope and
  its import scope.
\<close>

definition ownChange :: "node \<Rightarrow> scope \<Rightarrow> linkState \<Rightarrow> linkState \<Rightarrow> bool" where
  "ownChange m sm st st' =
     (scopeOf st' = scopeOf st
      \<and> (\<forall>a. a \<noteq> sm \<longrightarrow> a \<noteq> importScopeOf m \<longrightarrow> heap st' a = heap st a))"

text \<open>Every node of the tree has its own scope in its slot.\<close>

definition scopesAssigned :: "node \<Rightarrow> linkState \<Rightarrow> bool" where
  "scopesAssigned root st =
     (\<forall>n \<in> set (nodes root). \<exists>c. scopeOf st (id' n) = Some (LocalScope (OfNode (id' n)) c))"

text \<open>
  What lines 103--110 find when they run for a package in the state \<open>visited\<close>: the
  entities of the simple imports, resolved with the fresh import scope in place, and the
  scopes of the targets of the generic imports, resolved once the import scope is filled;
  both in declaration order.
\<close>

definition importsResolved ::
  "linkState \<Rightarrow> node \<Rightarrow> node list \<Rightarrow> scope list \<Rightarrow> bool" where
  "importsResolved visited package entities gs =
     (mapE (importedEntity (visited\<lparr> heap := (heap visited)(importScopeOf package := emptyFields) \<rparr>))
          (filter (\<lambda>imported. \<not> isGeneric imported) (imports' package)) = Inr entities
      \<and> mapE (\<lambda>imported.
                bindE (importedEntity
                         (visited\<lparr> heap := (heap visited)
                              (importScopeOf package := register (entityBindings entities) emptyFields) \<rparr>)
                         imported)
                      (getScope visited))
          (filter isGeneric (imports' package)) = Inr gs)"

text \<open>The state in which the second pass, started in \<open>st1\<close>, reaches a node.\<close>

definition visitedAt ::
  "(linkState \<Rightarrow> node \<Rightarrow> error + node list) \<Rightarrow> node \<Rightarrow> linkState \<Rightarrow> node \<Rightarrow> linkState \<Rightarrow> bool" where
  "visitedAt hierarchy root st1 n visited =
     (\<exists>before po rest.
        traversal None root = before @ (n, po) # rest
      \<and> foldE (\<lambda>(node, parent). crossLinks hierarchy root node parent) before st1 = Inr visited)"

text \<open>
  A Reference resolves its name, which may be qualified, starting from its own scope: it has
  a target.
\<close>

definition resolvesFromOwnScope :: "linkState \<Rightarrow> node \<Rightarrow> bool" where
  "resolvesFromOwnScope st reference =
     (case scopeOf st (id' reference) of
        None \<Rightarrow> False
      | Some referenceScope \<Rightarrow>
          (case name reference of
             None \<Rightarrow> False
           | Some qualifiedName \<Rightarrow>
               (case resolveQualified st referenceScope qualifiedName True of
                  Inl failure \<Rightarrow> False
                | Inr found \<Rightarrow> True)))"

section \<open>Example environments\<close>

text \<open>A hierarchy without ancestors: every module is its own and only supertype.\<close>

definition noAncestors :: "linkState \<Rightarrow> node \<Rightarrow> error + node list" where
  "noAncestors st n = Inr [n]"

text \<open>
  An environment as \<^verbatim>\<open>link\<close> builds it, ids given in visiting order: the two global
  packages, a package \<open>q\<close> with a class \<open>A\<close>, a package \<open>r\<close> with a mixin \<open>A\<close>, and a
  package \<open>p\<close> that imports \<open>q.A\<close> and, generically, \<open>r\<close>. In \<open>p\<close>, a class whose
  superclass Reference names \<open>A\<close>, and a describe holding a test and a field of the same
  name.
\<close>

definition exampleReference :: node where
  "exampleReference = Node Reference 15 (Some ''A'') False [] [] [] []"

definition exampleClass :: node where
  "exampleClass = Node Class 14 (Some ''C'') False [] [] [] [exampleReference]"

definition exampleTest :: node where
  "exampleTest = Node Test 17 (Some ''t'') False [] [] [] []"

definition exampleField :: node where
  "exampleField = Node Field 18 (Some ''t'') False [] [] [] []"

definition exampleDescribe :: node where
  "exampleDescribe = Node Describe 16 (Some ''d'') False [] [] [exampleTest, exampleField] []"

definition exampleImported :: node where
  "exampleImported = Node Class 6 (Some ''A'') False [] [] [] []"

definition examplePackage :: node where
  "examplePackage =
     Node Package 9 (Some ''p'') False []
       [Node Import 10 None False [] [] [] [Node Reference 11 (Some ''q.A'') False [] [] [] []],
        Node Import 12 None True [] [] [] [Node Reference 13 (Some ''r'') False [] [] [] []]]
       [exampleClass, exampleDescribe] []"

definition exampleRoot :: node where
  "exampleRoot =
     Node Environment 1 None False [] []
       [Node Package 2 (Some ''wollok'') False [] []
          [Node Package 3 (Some ''lang'') False [] [] [] [],
           Node Package 4 (Some ''lib'') False [] [] [] []] [],
        Node Package 5 (Some ''q'') False [] [] [exampleImported] [],
        Node Package 7 (Some ''r'') False [] []
          [Node Mixin 8 (Some ''A'') False [] [] [] []] [],
        examplePackage]
       []"

text \<open>
  Inputs of \<^verbatim>\<open>link\<close>: packages as the builders make them. A Reference that resolves
  and one that does not; then an import and a Reference with qualified names that resolve,
  and a Reference with a qualified name whose last segment does not.
\<close>

definition linkedPackages :: "node list" where
  "linkedPackages =
     [aPackage ''wollok'' [] [aPackage ''lang'' [] [aClass ''Object'' []], aPackage ''lib'' [] []],
      aPackage ''p'' []
        [Node Class 0 (Some ''C'') False [] [] []
           [Node Reference 0 (Some ''Object'') False ''p.wlk:1'' [] [] []]]]"

definition unlinkedPackages :: "node list" where
  "unlinkedPackages =
     [aPackage ''wollok'' [] [aPackage ''lang'' [] [aClass ''Object'' []], aPackage ''lib'' [] []],
      aPackage ''p'' []
        [Node Class 0 (Some ''C'') False [] [] []
           [Node Reference 0 (Some ''Missing'') False ''p.wlk:1'' [] [] []]]]"

definition qualifiedPackages :: "node list" where
  "qualifiedPackages =
     [aPackage ''wollok'' [] [aPackage ''lang'' [] [aClass ''Object'' []], aPackage ''lib'' [] []],
      aPackage ''q'' [] [aClass ''A'' []],
      aPackage ''p'' [anImport False ''q.A'']
        [Node Class 0 (Some ''C'') False [] [] []
           [Node Reference 0 (Some ''wollok.lang.Object'') False ''p.wlk:1'' [] [] []]]]"

definition danglingPackages :: "node list" where
  "danglingPackages =
     [aPackage ''wollok'' [] [aPackage ''lang'' [] [aClass ''Object'' []], aPackage ''lib'' [] []],
      aPackage ''p'' []
        [Node Class 0 (Some ''C'') False [] [] []
           [Node Reference 0 (Some ''wollok.lang.Missing'') False ''p.wlk:1'' [] [] []]]]"

declare resolve.simps [simp del] resolveQualified.simps [simp del] mergePackage.simps [simp del]
  distinctNames.simps [simp del] traversal.simps [simp del] ownMembersPath.simps [simp del]

section \<open>Merging: lemmas\<close>

lemma mergeAll_simps [simp]:
  "mergeAll [] base = base"
  "mergeAll (isolated # rest) base = mergeAll rest (mergePackage base isolated)"
  by (simp_all add: mergeAll_def)

lemma mergeAll_append: "mergeAll (xs @ ys) base = mergeAll ys (mergeAll xs base)"
  by (simp add: mergeAll_def)

lemma mergePackage_other:
  "kind isolated \<noteq> Package \<Longrightarrow>
     mergePackage ms isolated = filter (\<lambda>m. name m \<noteq> name isolated) ms @ [isolated]"
  by (subst mergePackage.simps) simp

lemma mergePackage_package:
  "kind isolated = Package \<Longrightarrow>
     mergePackage ms isolated =
       (case find (\<lambda>member. kind member = Package \<and> name member = name isolated) ms of
          Some existent \<Rightarrow>
            remove1 existent ms @ [withMembers existent (mergeAll (members isolated) (members existent))]
        | None \<Rightarrow> ms @ [isolated])"
  by (subst mergePackage.simps) (simp add: mergeAll_def split: option.splits)

lemma withMembers_sel [simp]:
  "kind (withMembers n ms) = kind n" "id' (withMembers n ms) = id' n"
  "name (withMembers n ms) = name n" "isGeneric (withMembers n ms) = isGeneric n"
  "source (withMembers n ms) = source n" "imports' (withMembers n ms) = imports' n"
  "members (withMembers n ms) = ms" "parts (withMembers n ms) = parts n"
  by (simp_all add: withMembers_def)

lemma withImports_sel [simp]:
  "kind (withImports n is) = kind n" "id' (withImports n is) = id' n"
  "name (withImports n is) = name n" "isGeneric (withImports n is) = isGeneric n"
  "source (withImports n is) = source n" "imports' (withImports n is) = is"
  "members (withImports n is) = members n" "parts (withImports n is) = parts n"
  by (simp_all add: withImports_def)

lemma withMembers_same [simp]: "withMembers n (members n) = n"
  by (cases n) (simp add: withMembers_def)

lemma find_Some_mem: "find P xs = Some x \<Longrightarrow> x \<in> set xs \<and> P x"
  by (induction xs) (auto split: if_splits)

lemma mergePackage_fresh:
  "\<forall>m \<in> set ms. name m \<noteq> name isolated \<Longrightarrow> mergePackage ms isolated = ms @ [isolated]"
proof (cases "kind isolated = Package")
  case True
  assume a: "\<forall>m \<in> set ms. name m \<noteq> name isolated"
  have "find (\<lambda>member. kind member = Package \<and> name member = name isolated) ms = None"
    using a by (auto simp: find_None_iff)
  with True show ?thesis by (simp add: mergePackage_package)
next
  case False
  assume a: "\<forall>m \<in> set ms. name m \<noteq> name isolated"
  then have "filter (\<lambda>m. name m \<noteq> name isolated) ms = ms" by (simp add: filter_id_conv)
  with False show ?thesis by (simp add: mergePackage_other)
qed

lemma mergeAll_fresh:
  "distinct (map name news) \<Longrightarrow> name ` set ms \<inter> name ` set news = {} \<Longrightarrow>
     mergeAll news ms = ms @ news"
proof (induction news arbitrary: ms)
  case Nil
  then show ?case by simp
next
  case (Cons e news)
  have "\<forall>m \<in> set ms. name m \<noteq> name e"
    using Cons.prems(2) by fastforce
  then have "mergePackage ms e = ms @ [e]"
    by (rule mergePackage_fresh)
  moreover have "distinct (map name news)" using Cons.prems(1) by simp
  moreover have "name ` set (ms @ [e]) \<inter> name ` set news = {}"
    using Cons.prems by auto
  ultimately show ?case using Cons.IH[of "ms @ [e]"] by simp
qed

lemma mergePackage_butlast_subseq: "subseq (butlast (mergePackage ms isolated)) ms"
proof (cases "kind isolated = Package")
  case True
  show ?thesis
  proof (cases "find (\<lambda>member. kind member = Package \<and> name member = name isolated) ms")
    case None
    with True show ?thesis by (simp add: mergePackage_package)
  next
    case (Some existent)
    have "subseq (remove1 existent ms) ms"
      by (induction ms) (auto intro: subseq_Cons')
    with True Some show ?thesis by (simp add: mergePackage_package)
  qed
next
  case False
  then show ?thesis by (simp add: mergePackage_other)
qed

lemma mergePackage_last:
  "mergePackage ms isolated \<noteq> [] \<and> name (last (mergePackage ms isolated)) = name isolated
     \<and> kind (last (mergePackage ms isolated)) = kind isolated"
proof (cases "kind isolated = Package")
  case True
  then show ?thesis
    by (auto simp: mergePackage_package split: option.splits dest: find_Some_mem)
next
  case False
  then show ?thesis by (simp add: mergePackage_other)
qed

lemma mergeAll_order:
  "\<exists>kept added. mergeAll news ms = kept @ added \<and> subseq kept ms \<and> length added \<le> length news
      \<and> name ` set added \<subseteq> name ` set news"
proof (induction news arbitrary: ms rule: rev_induct)
  case Nil
  show ?case by (rule exI[of _ ms], rule exI[of _ "[]"]) simp
next
  case (snoc e news)
  from snoc[of ms] obtain kept added where
    m: "mergeAll news ms = kept @ added" and k: "subseq kept ms"
    and l: "length added \<le> length news" and n: "name ` set added \<subseteq> name ` set news"
    by blast
  let ?r = "mergePackage (kept @ added) e"
  have r: "?r = butlast ?r @ [last ?r]" using mergePackage_last[of "kept @ added" e] by simp
  have "subseq (butlast ?r) (kept @ added)" by (rule mergePackage_butlast_subseq)
  then obtain kept' added' where b: "butlast ?r = kept' @ added'"
    and k': "subseq kept' kept" and a': "subseq added' added"
    by (auto elim: subseq_appendE)
  have "mergeAll (news @ [e]) ms = kept' @ (added' @ [last ?r])"
    using r b m by (simp add: mergeAll_append)
  moreover have "subseq kept' ms" using k' k by (rule subseq_order.trans)
  moreover have "length (added' @ [last ?r]) \<le> length (news @ [e])"
    using list_emb_length[OF a'] l by simp
  moreover have "set added' \<subseteq> set added"
    using a' by (auto elim: list_emb_set)
  then have "name ` set (added' @ [last ?r]) \<subseteq> name ` set (news @ [e])"
    using n mergePackage_last[of "kept @ added" e] by auto
  ultimately show ?case by blast
qed

lemma distinctNames_unfold:
  "distinctNames ms =
     (distinct (map name ms) \<and> (\<forall>m \<in> set ms. kind m = Package \<longrightarrow> distinctNames (members m)))"
  by (subst distinctNames.simps) (simp only: list_all_iff)

lemma mergePackage_self:
  assumes d: "distinct (map name (x # ys))"
    and m: "kind x = Package \<Longrightarrow> mergeAll (members x) (members x) = members x"
  shows "mergePackage (x # ys) x = ys @ [x]"
proof (cases "kind x = Package")
  case True
  then show ?thesis using m by (simp add: mergePackage_package)
next
  case False
  from d have "name x \<notin> name ` set ys" by simp
  then have "\<forall>y \<in> set ys. name y \<noteq> name x" by (metis image_eqI)
  then have "filter (\<lambda>m. name m \<noteq> name x) ys = ys" by (simp add: filter_id_conv)
  with False show ?thesis by (simp add: mergePackage_other)
qed

lemma mergeAll_rotate:
  assumes "distinct (map name (todo @ done'))"
    and "\<And>x. x \<in> set todo \<Longrightarrow> kind x = Package \<Longrightarrow> mergeAll (members x) (members x) = members x"
  shows "mergeAll todo (todo @ done') = done' @ todo"
  using assms
proof (induction todo arbitrary: done')
  case Nil
  then show ?case by simp
next
  case (Cons x todo)
  have "mergePackage (x # todo @ done') x = (todo @ done') @ [x]"
    using Cons.prems by (intro mergePackage_self) auto
  moreover have "mergeAll todo (todo @ (done' @ [x])) = (done' @ [x]) @ todo"
    using Cons.prems by (intro Cons.IH) auto
  ultimately show ?case by simp
qed

lemma mergeAll_self: "distinctNames ms \<Longrightarrow> mergeAll ms ms = ms"
proof (induction ms rule: distinctNames.induct)
  case (1 ms)
  have u: "distinct (map name ms) \<and> (\<forall>m \<in> set ms. kind m = Package \<longrightarrow> distinctNames (members m))"
    using "1.prems" distinctNames_unfold[of ms] by blast
  then have d: "distinct (map name ms)" by blast
  have "mergeAll (members x) (members x) = members x" if "x \<in> set ms" "kind x = Package" for x
    using "1.IH"[OF that] u that by blast
  then show ?case using mergeAll_rotate[of ms "[]"] d by simp
qed

lemma mergeAll_empty_base: "distinct (map name ms) \<Longrightarrow> mergeAll ms [] = ms"
  using mergeAll_fresh[of ms "[]"] by simp

section \<open>Scopes: lemmas\<close>

lemma resolve_no_lookup: "resolve h s n False = contributions (h s) n"
  by (subst resolve.simps) (simp add: Let_def)

lemma firstDefined_find:
  "firstDefined f xs = (case find (\<lambda>x. f x \<noteq> None) xs of Some x \<Rightarrow> f x | None \<Rightarrow> None)"
  by (induction xs) (auto split: option.splits)

lemma find_first_hit:
  "\<forall>b \<in> set before. \<not> P b \<Longrightarrow> P hit \<Longrightarrow> find P (before @ hit # rest) = Some hit"
  by (induction before) auto

lemma find_no_hit: "\<forall>x \<in> set xs. \<not> P x \<Longrightarrow> find P xs = None"
  by (simp add: find_None_iff)

lemmas lookupDefs = lookupHeap_def lookupTop_def lookupHere_def lookupFar_def lookupFirst_def
  lookupSecond_def lookupThird_def lookupOuter_def register_def emptyFields_def

lemma resolveQualified_own: "resolveQualified st s q False = ownMembersPath st s q"
proof (induction st s q rule: ownMembersPath.induct)
  case (1 st this qualifiedName)
  show ?case
    apply (subst resolveQualified.simps)
    apply (subst ownMembersPath.simps)
    using 1
    apply (auto simp: resolve_no_lookup split: prod.splits option.splits)
    done
qed

section \<open>The traversal and folds over it\<close>

lemma bindE_simps [simp]:
  "bindE (Inl e) f = Inl e"
  "bindE (Inr x) f = f x"
  by (simp_all add: bindE_def)

lemma bindE_Inr_iff: "bindE r f = Inr y \<longleftrightarrow> (\<exists>x. r = Inr x \<and> f x = Inr y)"
  by (cases r) simp_all

lemma foldE_append: "foldE f (xs @ ys) s = bindE (foldE f xs s) (foldE f ys)"
  by (induction xs arbitrary: s) (auto simp: bindE_def split: sum.splits)

lemma foldE_invariant:
  assumes run: "foldE f xs s = Inr s'"
    and init: "I [] s"
    and step: "\<And>before x rest st st'.
                 xs = before @ x # rest \<Longrightarrow> I before st \<Longrightarrow> f x st = Inr st' \<Longrightarrow> I (before @ [x]) st'"
  shows "I xs s'"
proof -
  have "foldE f ys st = Inr s' \<Longrightarrow> xs = before @ ys \<Longrightarrow> I before st \<Longrightarrow> I xs s'" for ys before st
  proof (induction ys arbitrary: before st)
    case Nil
    then show ?case by simp
  next
    case (Cons y ys)
    from Cons.prems(1) obtain st1 where y: "f y st = Inr st1" and r: "foldE f ys st1 = Inr s'"
      by (auto simp: bindE_Inr_iff)
    have "I (before @ [y]) st1" using step[OF Cons.prems(2) Cons.prems(3) y] .
    then show ?case using Cons.IH[OF r, of "before @ [y]"] Cons.prems(2) by simp
  qed
  from this[OF run, of "[]"] init show ?thesis by simp
qed

lemma foldE_snoc: "foldE f before s = Inr st \<Longrightarrow> foldE f (before @ [x]) s = f x st"
  by (cases "f x st") (simp_all add: foldE_append)

lemma foldE_prefix_invariant:
  assumes run: "foldE f xs s = Inr s'"
    and init: "I [] s"
    and step: "\<And>before x rest st st'.
                 xs = before @ x # rest \<Longrightarrow> foldE f before s = Inr st \<Longrightarrow> I before st
                 \<Longrightarrow> f x st = Inr st' \<Longrightarrow> I (before @ [x]) st'"
  shows "I xs s'"
proof -
  have "foldE f xs s = Inr s' \<and> I xs s'"
  proof (rule foldE_invariant[where I = "\<lambda>before st. foldE f before s = Inr st \<and> I before st"
        and f = f and s = s])
    show "foldE f xs s = Inr s'" by (rule run)
    show "foldE f [] s = Inr s \<and> I [] s" using init by simp
  next
    fix before x rest st st'
    assume T: "xs = before @ x # rest"
      and I: "foldE f before s = Inr st \<and> I before st"
      and f: "f x st = Inr st'"
    from I f have "foldE f (before @ [x]) s = Inr st'" by (simp add: foldE_snoc)
    moreover have "I (before @ [x]) st'" using step[OF T _ _ f] I by blast
    ultimately show "foldE f (before @ [x]) s = Inr st' \<and> I (before @ [x]) st'" by simp
  qed
  then show ?thesis by simp
qed

lemma traversal_unfold:
  "traversal parent n = (n, parent) # concat (map (traversal (Some n)) (children n))"
  by (subst traversal.simps) simp

lemma traversal_pairs:
  "(n, Some p) \<in> set (traversal q r) \<Longrightarrow>
     (n = r \<and> q = Some p) \<or> (p \<in> fst ` set (traversal q r) \<and> n \<in> set (children p))"
proof (induction q r arbitrary: n p rule: traversal.induct)
  case (1 parent r)
  from "1.prems" have "(n, Some p) = (r, parent) \<or>
      (\<exists>c \<in> set (children r). (n, Some p) \<in> set (traversal (Some r) c))"
    by (subst (asm) traversal_unfold) auto
  then show ?case
  proof
    assume "(n, Some p) = (r, parent)"
    then show ?thesis by simp
  next
    assume "\<exists>c \<in> set (children r). (n, Some p) \<in> set (traversal (Some r) c)"
    then obtain c where c: "c \<in> set (children r)" and m: "(n, Some p) \<in> set (traversal (Some r) c)"
      by blast
    from "1.IH"[OF c m] show ?thesis
    proof
      assume "n = c \<and> Some r = Some p"
      then have "p = r" "n \<in> set (children p)" using c by auto
      moreover have "r \<in> fst ` set (traversal parent r)"
        by (subst traversal_unfold) simp
      ultimately show ?thesis by simp
    next
      assume a: "p \<in> fst ` set (traversal (Some r) c) \<and> n \<in> set (children p)"
      then have "p \<in> fst ` set (traversal parent r)"
        using c by (subst traversal_unfold) auto
      with a show ?thesis by simp
    qed
  qed
qed

lemma parentsFirst_append:
  "parentsFirst seen (xs @ ys) = (parentsFirst seen xs \<and> parentsFirst (rev (map fst xs) @ seen) ys)"
  by (induction xs arbitrary: seen) auto

lemma parentsFirst_mono:
  "parentsFirst seen xs \<Longrightarrow> set seen \<subseteq> set seen' \<Longrightarrow> parentsFirst seen' xs"
proof (induction xs arbitrary: seen seen')
  case Nil
  then show ?case by simp
next
  case (Cons x xs)
  have "parentsFirst (fst x # seen') xs"
    using Cons.prems by (auto intro!: Cons.IH[of "fst x # seen" "fst x # seen'"] split: option.splits)
  then show ?case using Cons.prems by (auto split: option.splits)
qed

lemma parentsFirst_concat:
  assumes "\<And>c. c \<in> set cs \<Longrightarrow> parentsFirst seen (g c)"
  shows "parentsFirst seen (concat (map g cs))"
  using assms
proof (induction cs arbitrary: seen)
  case Nil
  then show ?case by simp
next
  case (Cons c cs)
  have "parentsFirst (rev (map fst (g c)) @ seen) (concat (map g cs))"
  proof (rule Cons.IH)
    fix d assume "d \<in> set cs"
    then have "parentsFirst seen (g d)" using Cons.prems by simp
    then show "parentsFirst (rev (map fst (g c)) @ seen) (g d)"
      by (rule parentsFirst_mono) auto
  qed
  then show ?case using Cons.prems by (simp add: parentsFirst_append)
qed

lemma parentsFirst_traversal:
  "(case q of None \<Rightarrow> True | Some p \<Rightarrow> p \<in> set seen) \<Longrightarrow> parentsFirst seen (traversal q r)"
proof (induction q r arbitrary: seen rule: traversal.induct)
  case (1 parent r)
  have "parentsFirst (r # seen) (concat (map (traversal (Some r)) (children r)))"
    by (rule parentsFirst_concat) (simp add: "1.IH")
  then show ?case using "1.prems" by (subst traversal_unfold) simp
qed

lemma parentsFirst_split:
  "parentsFirst seen (before @ (n, Some p) # rest) \<Longrightarrow> p \<in> set seen \<or> p \<in> fst ` set before"
  by (auto simp: parentsFirst_append)

lemma traversal_parent_before:
  "traversal None r = before @ (n, Some p) # rest \<Longrightarrow> p \<in> fst ` set before"
  using parentsFirst_traversal[where q = None and seen = "[]" and r = r]
    parentsFirst_split[of "[]" before n p rest] by simp

lemma traversal_head: "\<exists>rest. traversal q r = (r, q) # rest"
  by (subst traversal_unfold) simp

lemma traversal_root_only:
  "(n, None) \<in> set (traversal q r) \<Longrightarrow> n = r \<and> q = None"
proof (induction q r arbitrary: n rule: traversal.induct)
  case (1 parent r)
  from "1.prems" have "(n, None) = (r, parent) \<or>
      (\<exists>c \<in> set (children r). (n, None) \<in> set (traversal (Some r) c))"
    by (subst (asm) traversal_unfold) auto
  then show ?case using "1.IH" by auto
qed

section \<open>Identities of the new environment\<close>

lemma traversal_fst: "map fst (traversal q n) = map fst (traversal None n)"
proof (induction q n rule: traversal.induct)
  case (1 parent n)
  have "map fst (traversal parent n) = n # concat (map (\<lambda>c. map fst (traversal (Some n) c)) (children n))"
    by (subst traversal_unfold) (simp add: map_concat comp_def)
  moreover have "map fst (traversal None n) = n # concat (map (\<lambda>c. map fst (traversal (Some n) c)) (children n))"
    by (subst traversal_unfold) (simp add: map_concat comp_def)
  ultimately show ?case by simp
qed

lemma nodes_unfold: "nodes n = n # concat (map nodes (children n))"
proof -
  have "nodes n = n # concat (map (\<lambda>c. map fst (traversal (Some n) c)) (children n))"
    unfolding nodes_def by (subst traversal_unfold) (simp add: map_concat comp_def)
  also have "(\<lambda>c. map fst (traversal (Some n) c)) = nodes"
    by (rule ext) (simp add: nodes_def traversal_fst[of "Some n"])
  finally show ?thesis .
qed

lemma children_Node [simp]: "children (Node kd i nm g src is ms ps) = is @ ms @ ps"
  by (simp add: children_def)

lemma upt_split: "a \<le> b \<Longrightarrow> b \<le> c \<Longrightarrow> [a..<c] = [a..<b] @ [b..<c]"
  by (metis le_Suc_ex upt_add_eq_append)

lemma transform_ids:
  "transformIds uuid k n = (n', k') \<Longrightarrow> map id' (nodes n') = map uuid [k..<k'] \<and> k < k'"
  "transformAll uuid k ns = (ns', k') \<Longrightarrow>
      map id' (concat (map nodes ns')) = map uuid [k..<k'] \<and> k \<le> k'"
proof (induction uuid k n and uuid k ns arbitrary: n' k' and ns' k'
       rule: transformIds_transformAll.induct)
  case (1 uuid k kd i nm g src "is" ms ps)
  obtain is' k1 where a: "transformAll uuid (Suc k) is = (is', k1)" by (cases "transformAll uuid (Suc k) is")
  obtain ms' k2 where b: "transformAll uuid k1 ms = (ms', k2)" by (cases "transformAll uuid k1 ms")
  obtain ps' k3 where c: "transformAll uuid k2 ps = (ps', k3)" by (cases "transformAll uuid k2 ps")
  from "1.prems" a b c have n': "n' = Node kd (uuid k) nm g src is' ms' ps'" and k': "k' = k3"
    by simp_all
  from "1.IH"(1)[OF a] have ia: "map id' (concat (map nodes is')) = map uuid [Suc k..<k1]" "Suc k \<le> k1"
    by simp_all
  from "1.IH"(2)[OF a[symmetric] b] have ib: "map id' (concat (map nodes ms')) = map uuid [k1..<k2]" "k1 \<le> k2"
    by simp_all
  from "1.IH"(3)[OF a[symmetric] b[symmetric] c]
  have ic: "map id' (concat (map nodes ps')) = map uuid [k2..<k3]" "k2 \<le> k3"
    by simp_all
  have "k < k3" using ia(2) ib(2) ic(2) by simp
  then have "[k..<k3] = k # [Suc k..<k3]" by (rule upt_conv_Cons)
  also have "[Suc k..<k3] = [Suc k..<k1] @ [k1..<k3]"
    using ia(2) ib(2) ic(2) by (intro upt_split) simp_all
  also have "[k1..<k3] = [k1..<k2] @ [k2..<k3]"
    using ib(2) ic(2) by (rule upt_split)
  finally have "[k..<k3] = k # [Suc k..<k1] @ [k1..<k2] @ [k2..<k3]" .
  then show ?case using ia ib ic n' k'
    by (subst nodes_unfold) simp
next
  case (2 uuid k)
  then show ?case by simp
next
  case (3 uuid k n ns)
  obtain n1 k1 where a: "transformIds uuid k n = (n1, k1)" by (cases "transformIds uuid k n")
  obtain ns1 k2 where b: "transformAll uuid k1 ns = (ns1, k2)" by (cases "transformAll uuid k1 ns")
  from "3.prems" a b have r: "ns' = n1 # ns1" "k' = k2" by simp_all
  from "3.IH"(1)[OF a] have ia: "map id' (nodes n1) = map uuid [k..<k1]" "k < k1" by simp_all
  from "3.IH"(2)[OF a[symmetric] b] have ib: "map id' (concat (map nodes ns1)) = map uuid [k1..<k2]" "k1 \<le> k2"
    by simp_all
  have "[k..<k2] = [k..<k1] @ [k1..<k2]"
    using ia(2) ib(2) by (intro upt_split) simp_all
  then show ?case using ia ib r by simp
qed

lemma transformIds_kind: "kind (fst (transformIds uuid k n)) = kind n"
  by (cases n) (simp split: prod.splits)

lemma newEnvironment_ids:
  "\<exists>k'. map id' (nodes (newEnvironment uuid newPackages baseEnvironment)) = map uuid [1..<k'] \<and> 1 < k'"
proof -
  let ?e = "Node Environment (uuid 0) None False [] []
               (mergeAll newPackages (case baseEnvironment of None \<Rightarrow> [] | Some base \<Rightarrow> members base)) []"
  obtain n' k' where t: "transformIds uuid 1 ?e = (n', k')" by (cases "transformIds uuid 1 ?e")
  from transform_ids(1)[OF t] show ?thesis
    unfolding newEnvironment_def using t by auto
qed

lemma newEnvironment_distinct:
  assumes "inj uuid"
  shows "distinct (map id' (nodes (newEnvironment uuid newPackages baseEnvironment)))"
proof -
  from newEnvironment_ids[of uuid newPackages baseEnvironment] obtain k' where
    k: "map id' (nodes (newEnvironment uuid newPackages baseEnvironment)) = map uuid [1..<k']"
    by blast
  have "inj_on uuid (set [1..<k'])" using assms by (rule inj_on_subset) simp
  then have "distinct (map uuid [1..<k'])" by (simp add: distinct_map)
  with k show ?thesis by simp
qed

lemma newEnvironment_kind: "kind (newEnvironment uuid newPackages baseEnvironment) = Environment"
  by (simp add: newEnvironment_def transformIds_kind del: transformIds.simps)

section \<open>What one step of a pass changes\<close>

lemma sameCaches_refl [simp]: "sameCaches st st"
  by (simp add: sameCaches_def)

lemma sameSlots_refl [simp]: "sameSlots st st"
  by (simp add: sameSlots_def)

lemma sameCaches_trans: "sameCaches a b \<Longrightarrow> sameCaches b c \<Longrightarrow> sameCaches a c"
  by (simp add: sameCaches_def)

lemma sameSlots_trans: "sameSlots a b \<Longrightarrow> sameSlots b c \<Longrightarrow> sameSlots a c"
  by (simp add: sameSlots_def sameCaches_def)

lemma sameSlots_registerAt [simp]: "sameSlots st (registerAt s cs st)"
  by (simp add: sameSlots_def sameCaches_def registerAt_def)

lemma sameSlots_heap [simp]: "sameSlots st (st\<lparr> heap := h \<rparr>)"
  by (simp add: sameSlots_def sameCaches_def)

lemma foldE_preserve:
  assumes "foldE f xs s = Inr s'" and "P s"
    and "\<And>x st st'. x \<in> set xs \<Longrightarrow> P st \<Longrightarrow> f x st = Inr st' \<Longrightarrow> P st'"
  shows "P s'"
proof -
  have "P s'" if "foldE f ys t = Inr s'" "P t" "set ys \<subseteq> set xs" for ys t
    using that
  proof (induction ys arbitrary: t)
    case Nil
    then show ?case by simp
  next
    case (Cons y ys)
    from Cons.prems(1) obtain t1 where a: "f y t = Inr t1" and b: "foldE f ys t1 = Inr s'"
      by (auto simp: bindE_Inr_iff)
    have "y \<in> set xs" using Cons.prems(3) by simp
    then have "P t1" using assms(3) Cons.prems(2) a by blast
    moreover have "set ys \<subseteq> set xs" using Cons.prems(3) by simp
    ultimately show ?case using Cons.IH[OF b] by blast
  qed
  from this[OF assms(1) assms(2)] show ?thesis by simp
qed

lemma getScope_Inr: "getScope st n = Inr s \<longleftrightarrow> scopeOf st (id' n) = Some s"
  by (simp add: getScope_def split: option.splits)

lemma scopeSkeleton_alt:
  "scopeSkeleton n po st =
     bindE
       (if kind n = Reference
        then (case po of
                None \<Rightarrow> Inl TypeError
              | Some p \<Rightarrow>
                  if kind p = Class \<or> kind p = Mixin
                  then (case parentOf st (id' p) of
                          None \<Rightarrow> Inl (MissingParent (id' p))
                        | Some grandparent \<Rightarrow> Inr (scopeOf st (id' grandparent)))
                  else Inr (scopeOf st (id' p)))
        else Inr (case po of None \<Rightarrow> None | Some p \<Rightarrow> scopeOf st (id' p)))
       (\<lambda>c. if isEntity n
            then (case po of
                    None \<Rightarrow> Inl TypeError
                  | Some p \<Rightarrow>
                      bindE (getScope (allocated n c st) p)
                        (\<lambda>parentScope. Inr (registerAt parentScope (scopeContribution n) (allocated n c st))))
            else Inr (allocated n c st))"
  by (simp add: scopeSkeleton_def newLocalScope_def Let_def allocated_def
        cong: option.case_cong if_cong)

lemma scopeSkeleton_effect:
  assumes "scopeSkeleton n po st = Inr st'"
  shows "\<exists>c. containerRule st n po c
           \<and> (st' = allocated n c st
              \<or> (\<exists>p ps. po = Some p \<and> isEntity n \<and> scopeOf (allocated n c st) (id' p) = Some ps
                   \<and> st' = registerAt ps (scopeContribution n) (allocated n c st)))"
proof -
  from assms obtain c where
    c: "(if kind n = Reference
        then (case po of
                None \<Rightarrow> Inl TypeError
              | Some p \<Rightarrow>
                  if kind p = Class \<or> kind p = Mixin
                  then (case parentOf st (id' p) of
                          None \<Rightarrow> Inl (MissingParent (id' p))
                        | Some grandparent \<Rightarrow> Inr (scopeOf st (id' grandparent)))
                  else Inr (scopeOf st (id' p)))
        else Inr (case po of None \<Rightarrow> None | Some p \<Rightarrow> scopeOf st (id' p))) = Inr c"
    and r: "(if isEntity n
              then (case po of
                      None \<Rightarrow> Inl TypeError
                    | Some p \<Rightarrow>
                        bindE (getScope (allocated n c st) p)
                          (\<lambda>parentScope. Inr (registerAt parentScope (scopeContribution n) (allocated n c st))))
              else Inr (allocated n c st)) = Inr st'"
    unfolding scopeSkeleton_alt bindE_Inr_iff by blast
  have "containerRule st n po c"
    using c unfolding containerRule_def by (auto split: if_splits option.splits)
  moreover have "st' = allocated n c st
              \<or> (\<exists>p ps. po = Some p \<and> isEntity n \<and> scopeOf (allocated n c st) (id' p) = Some ps
                   \<and> st' = registerAt ps (scopeContribution n) (allocated n c st))"
    using r by (auto split: if_splits option.splits simp: bindE_Inr_iff getScope_Inr)
  ultimately show ?thesis by blast
qed

lemma registerGlobals_effect:
  "registerGlobals environment n st = Inr st' \<Longrightarrow>
     \<exists>s cs. scopeOf st (id' n) = Some s \<and> st' = registerAt s cs st"
  unfolding registerGlobals_def by (auto simp: bindE_Inr_iff getScope_Inr)

lemma linkImports_effect:
  assumes "linkImports n st = Inr st'"
  shows "\<exists>ps entities gs.
        scopeOf st (id' n) = Some ps
      \<and> mapE (importedEntity (st\<lparr> heap := (heap st)(importScopeOf n := emptyFields) \<rparr>))
           (filter (\<lambda>imported. \<not> isGeneric imported) (imports' n)) = Inr entities
      \<and> mapE (\<lambda>imported.
                bindE (importedEntity
                         (st\<lparr> heap := (heap st)(importScopeOf n := register (entityBindings entities) emptyFields) \<rparr>)
                         imported)
                      (getScope st))
           (filter isGeneric (imports' n)) = Inr gs
      \<and> st' = importsLinked n ps entities gs st"
proof -
  let ?st1 = "st\<lparr> heap := (heap st)(importScopeOf n := emptyFields) \<rparr>"
  from assms obtain entities where
    e: "mapE (importedEntity ?st1) (filter (\<lambda>imported. \<not> isGeneric imported) (imports' n)) = Inr entities"
    and r1: "(let st2 = registerAt (importScopeOf n) (entityBindings entities) ?st1
             in bindE (getScope st2 n) (\<lambda>packageScope.
                bindE (mapE (\<lambda>imported. bindE (importedEntity st2 imported) (getScope st2))
                         (filter isGeneric (imports' n))) (\<lambda>genericScopes.
                Inr (st2\<lparr> heap := (heap st2)(packageScope := (heap st2 packageScope)
                          \<lparr> includedScopes :=
                              importScopeOf n # genericScopes @ includedScopes (heap st2 packageScope) \<rparr>) \<rparr>))))
            = Inr st'"
    unfolding linkImports_def
    by (auto simp: bindE_Inr_iff newLocalScope_def Let_def importScopeOf_def entityBindings_def)
  let ?st2 = "st\<lparr> heap := (heap st)(importScopeOf n := register (entityBindings entities) emptyFields) \<rparr>"
  have st2: "registerAt (importScopeOf n) (entityBindings entities) ?st1 = ?st2"
    by (simp add: registerAt_def)
  have gs2: "getScope ?st2 = getScope st"
    by (rule ext) (simp add: getScope_def)
  from r1 obtain ps gs where
    p: "scopeOf st (id' n) = Some ps"
    and g: "mapE (\<lambda>imported. bindE (importedEntity ?st2 imported) (getScope st))
              (filter isGeneric (imports' n)) = Inr gs"
    and r2: "st' = ?st2\<lparr> heap := (heap ?st2)(ps := (heap ?st2 ps)
                          \<lparr> includedScopes := importScopeOf n # gs @ includedScopes (heap ?st2 ps) \<rparr>) \<rparr>"
    unfolding st2 Let_def gs2 by (auto simp: bindE_Inr_iff getScope_Inr)
  have "st' = importsLinked n ps entities gs st"
    using r2 by (simp add: importsLinked_def)
  with p e g show ?thesis by blast
qed

lemma includeAncestors_effect:
  "includeAncestors hierarchy n st = Inr st' \<Longrightarrow>
     \<exists>s ancestorScopes.
        scopeOf st (id' n) = Some s
      \<and> st' = st\<lparr> heap := (heap st)(s := (heap st s)
               \<lparr> includedScopes := includedScopes (heap st s) @ ancestorScopes \<rparr>) \<rparr>"
  unfolding includeAncestors_def by (auto simp: bindE_Inr_iff getScope_Inr)

lemma crossLinks_parts:
  assumes "crossLinks hierarchy environment n po st = Inr st'"
  shows "\<exists>st1 st2 st3.
      (if kind n = Environment then registerGlobals environment n st else Inr st) = Inr st1
    \<and> (if kind n = Package \<and> imports' n \<noteq> [] then linkImports n st1 else Inr st1) = Inr st2
    \<and> (if isModule n then includeAncestors hierarchy n st2 else Inr st2) = Inr st3
    \<and> (case po of
          Some p \<Rightarrow>
            if \<not> isEntity n
            then bindE (getScope st3 p)
                   (\<lambda>parentScope. Inr (registerAt parentScope (scopeContribution n) st3))
            else Inr st3
        | None \<Rightarrow> Inr st3) = Inr st'"
  using assms unfolding crossLinks_def by (simp add: bindE_Inr_iff)

lemma sameSlots_importsLinked [simp]: "sameSlots st (importsLinked n ps entities gs st)"
  by (simp add: importsLinked_def)

lemma crossLinks_sameSlots:
  assumes "crossLinks hierarchy environment n po st = Inr st'"
  shows "sameSlots st st'"
proof -
  from crossLinks_parts[OF assms] obtain st1 st2 st3 where
    a: "(if kind n = Environment then registerGlobals environment n st else Inr st) = Inr st1"
    and b: "(if kind n = Package \<and> imports' n \<noteq> [] then linkImports n st1 else Inr st1) = Inr st2"
    and c: "(if isModule n then includeAncestors hierarchy n st2 else Inr st2) = Inr st3"
    and d: "(case po of
               Some p \<Rightarrow>
                 if \<not> isEntity n
                 then bindE (getScope st3 p)
                        (\<lambda>parentScope. Inr (registerAt parentScope (scopeContribution n) st3))
                 else Inr st3
             | None \<Rightarrow> Inr st3) = Inr st'"
    by blast
  have "sameSlots st st1"
  proof (cases "kind n = Environment")
    case True
    with a registerGlobals_effect[of environment n st st1] show ?thesis by auto
  next
    case False
    with a show ?thesis by simp
  qed
  moreover have "sameSlots st1 st2"
  proof (cases "kind n = Package \<and> imports' n \<noteq> []")
    case True
    with b linkImports_effect[of n st1 st2] show ?thesis by auto
  next
    case False
    with b show ?thesis by auto
  qed
  moreover have "sameSlots st2 st3"
  proof (cases "isModule n")
    case True
    with c includeAncestors_effect[of hierarchy n st2 st3] show ?thesis by auto
  next
    case False
    with c show ?thesis by simp
  qed
  moreover have "sameSlots st3 st'"
    using d by (cases po) (auto split: if_splits simp: bindE_Inr_iff)
  ultimately show ?thesis by (blast intro: sameSlots_trans)
qed

lemma validate_same: "validate n po st = Inr st' \<Longrightarrow> st' = st"
  unfolding validate_def by (auto simp: bindE_Inr_iff split: if_splits option.splits)

lemma sameCaches_allocated [simp]: "sameCaches st (allocated n c st)"
  by (simp add: sameCaches_def allocated_def)

lemma sameCaches_registerAt [simp]: "sameCaches st (registerAt s cs st')  = sameCaches st st'"
  by (simp add: sameCaches_def registerAt_def)

lemma scopeSkeleton_sameCaches: "scopeSkeleton n po st = Inr st' \<Longrightarrow> sameCaches st st'"
  by (drule scopeSkeleton_effect) auto

lemma forEach_scopeSkeleton_sameCaches:
  assumes "forEach scopeSkeleton root st = Inr st'"
  shows "sameCaches st st'"
proof (rule foldE_preserve[where P = "sameCaches st"])
  show "foldE (\<lambda>(node, parent). scopeSkeleton node parent) (traversal None root) st = Inr st'"
    using assms by (simp add: forEach_def)
  show "sameCaches st st" by simp
next
  fix x s s'
  assume "sameCaches st s" "(case x of (node, parent) \<Rightarrow> scopeSkeleton node parent) s = Inr s'"
  then show "sameCaches st s'"
    by (cases x) (auto dest: scopeSkeleton_sameCaches intro: sameCaches_trans)
qed

lemma forEach_crossLinks_sameSlots:
  assumes "forEach (crossLinks hierarchy environment) root st = Inr st'"
  shows "sameSlots st st'"
proof (rule foldE_preserve[where P = "sameSlots st"])
  show "foldE (\<lambda>(node, parent). crossLinks hierarchy environment node parent) (traversal None root) st = Inr st'"
    using assms by (simp add: forEach_def)
  show "sameSlots st st" by simp
next
  fix x s s'
  assume "sameSlots st s"
    "(case x of (node, parent) \<Rightarrow> crossLinks hierarchy environment node parent) s = Inr s'"
  then show "sameSlots st s'"
    by (cases x) (auto dest: crossLinks_sameSlots intro: sameSlots_trans)
qed

lemma forEach_validate_same:
  assumes "forEach validate root st = Inr st'"
  shows "st' = st"
proof (rule foldE_preserve[where P = "\<lambda>s. s = st"])
  show "foldE (\<lambda>(node, parent). validate node parent) (traversal None root) st = Inr st'"
    using assms by (simp add: forEach_def)
  show "st = st" by simp
next
  fix x s s'
  assume "s = st" "(case x of (node, parent) \<Rightarrow> validate node parent) s = Inr s'"
  then show "s' = st"
    by (cases x) (auto dest: validate_same)
qed

lemma assignScopes_parts:
  "assignScopes hierarchy environment st = Inr st' \<Longrightarrow>
     \<exists>st1. forEach scopeSkeleton environment st = Inr st1
          \<and> forEach (crossLinks hierarchy environment) environment st1 = Inr st'"
  by (simp add: assignScopes_def bindE_Inr_iff)

lemma assignScopes_sameCaches:
  assumes "assignScopes hierarchy environment st = Inr st'"
  shows "sameCaches st st'"
proof -
  from assignScopes_parts[OF assms] obtain st1 where
    a: "forEach scopeSkeleton environment st = Inr st1"
    and b: "forEach (crossLinks hierarchy environment) environment st1 = Inr st'"
    by blast
  from forEach_scopeSkeleton_sameCaches[OF a] forEach_crossLinks_sameSlots[OF b]
  show ?thesis by (auto simp: sameSlots_def intro: sameCaches_trans)
qed

section \<open>The caches\<close>

lemma distinct_split_notin:
  "distinct (map f (before @ x # rest)) \<Longrightarrow> y \<in> set before \<Longrightarrow> f y \<noteq> f x"
  by (auto simp: image_iff)

lemma fillCaches_filled:
  assumes d: "distinct (map id' (nodes root))"
    and run: "forEach (fillCaches environment) root emptyState = Inr st"
  shows "(\<forall>x \<in> set (traversal None root).
            nodeById st (id' (fst x)) = Some (fst x) \<and> parentOf st (id' (fst x)) = snd x
            \<and> environmentOf st (id' (fst x)) = Some environment)
         \<and> (\<forall>i. i \<notin> id' ` set (nodes root) \<longrightarrow> nodeById st i = None)
         \<and> scopeOf st = Map.empty"
proof -
  let ?T = "traversal None root"
  let ?I = "\<lambda>before s.
      (\<forall>x \<in> set before.
            nodeById s (id' (fst x)) = Some (fst x) \<and> parentOf s (id' (fst x)) = snd x
            \<and> environmentOf s (id' (fst x)) = Some environment)
         \<and> (\<forall>i. i \<notin> id' ` fst ` set before \<longrightarrow> nodeById s i = None \<and> parentOf s i = None)
         \<and> scopeOf s = Map.empty"
  have dT: "distinct (map (\<lambda>x. id' (fst x)) ?T)"
    using d by (simp add: nodes_def comp_def)
  have "?I ?T st"
  proof (rule foldE_invariant[where I = ?I and f = "\<lambda>(node, parent). fillCaches environment node parent"])
    show "foldE (\<lambda>(node, parent). fillCaches environment node parent) ?T emptyState = Inr st"
      using run by (simp add: forEach_def)
    show "?I [] emptyState" by (simp add: emptyState_def)
  next
    fix before x rest s s'
    assume T: "?T = before @ x # rest" and I: "?I before s"
      and step: "(case x of (node, parent) \<Rightarrow> fillCaches environment node parent) s = Inr s'"
    obtain n po where x: "x = (n, po)" by (cases x)
    have fresh: "\<forall>y \<in> set before. id' (fst y) \<noteq> id' n"
      using distinct_split_notin[of "\<lambda>x. id' (fst x)" before "(n, po)" rest] dT
      unfolding T x by auto
    have s': "s' = (case po of Some p \<Rightarrow> s\<lparr> parentOf := (parentOf s)(id' n \<mapsto> p) \<rparr> | None \<Rightarrow> s)
                \<lparr> environmentOf := (environmentOf s)(id' n \<mapsto> environment),
                  nodeById := (nodeById s)(id' n \<mapsto> n) \<rparr>"
      using step unfolding x by (cases po) (auto simp: fillCaches_def Let_def)
    have notin: "id' n \<notin> id' ` fst ` set before"
      using fresh by force
    have pn: "parentOf s (id' n) = None"
      using I notin by blast
    have I1: "\<forall>x \<in> set before.
            nodeById s (id' (fst x)) = Some (fst x) \<and> parentOf s (id' (fst x)) = snd x
            \<and> environmentOf s (id' (fst x)) = Some environment"
      and I2: "\<forall>i. i \<notin> id' ` fst ` set before \<longrightarrow> nodeById s i = None \<and> parentOf s i = None"
      and I3: "scopeOf s = Map.empty"
      using I by blast+
    have "\<forall>y \<in> set (before @ [x]).
            nodeById s' (id' (fst y)) = Some (fst y) \<and> parentOf s' (id' (fst y)) = snd y
            \<and> environmentOf s' (id' (fst y)) = Some environment"
      unfolding s' x using I1 fresh pn by (cases po) auto
    moreover have "\<forall>i. i \<notin> id' ` fst ` set (before @ [x]) \<longrightarrow> nodeById s' i = None \<and> parentOf s' i = None"
      unfolding s' x using I2 by (cases po) auto
    moreover have "scopeOf s' = Map.empty"
      unfolding s' using I3 by (cases po) auto
    ultimately show "?I (before @ [x]) s'" by blast
  qed
  then show ?thesis by (auto simp: nodes_def image_iff)
qed

lemma getNodeById_simps:
  "nodeById st i = Some n \<Longrightarrow> getNodeById st i = Inr n"
  "nodeById st i = None \<Longrightarrow> getNodeById st i = Inl (MissingNode i)"
  by (simp_all add: getNodeById_def)

lemma link_parts:
  assumes "link uuid hierarchy newPackages baseEnvironment = Inr (env, st)"
  shows "env = newEnvironment uuid newPackages baseEnvironment
       \<and> (\<exists>st1. forEach (fillCaches env) env emptyState = Inr st1
              \<and> assignScopes hierarchy env st1 = Inr st
              \<and> forEach validate env st = Inr st)"
proof -
  let ?e = "newEnvironment uuid newPackages baseEnvironment"
  from assms obtain st1 st2 st3 where
    a: "forEach (fillCaches ?e) ?e emptyState = Inr st1"
    and b: "assignScopes hierarchy ?e st1 = Inr st2"
    and c: "forEach validate ?e st2 = Inr st3"
    and r: "(env, st) = (?e, st3)"
    unfolding link_def Let_def by (auto simp: bindE_Inr_iff)
  from forEach_validate_same[OF c] have "st3 = st2" .
  with a b c r show ?thesis by auto
qed

lemma nodes_root: "root \<in> set (nodes root)"
  by (subst nodes_unfold) simp

section \<open>The first pass\<close>

lemma parentsFirst_member:
  "parentsFirst seen xs \<Longrightarrow> (n, Some p) \<in> set xs \<Longrightarrow> p \<in> set seen \<or> p \<in> fst ` set xs"
proof (induction xs arbitrary: seen)
  case Nil
  then show ?case by simp
next
  case (Cons x xs)
  show ?case
  proof (cases "(n, Some p) = x")
    case True
    with Cons.prems(1) show ?thesis by auto
  next
    case False
    with Cons.prems have "(n, Some p) \<in> set xs" "parentsFirst (fst x # seen) xs" by auto
    from Cons.IH[OF this(2) this(1)] show ?thesis by auto
  qed
qed

lemma prefix_parent:
  assumes "traversal None root = before @ rest" and "(n, Some p) \<in> set before"
  shows "p \<in> fst ` set before"
proof -
  have "parentsFirst [] (before @ rest)"
    using parentsFirst_traversal[where q = None and seen = "[]" and r = root] assms(1) by simp
  then have "parentsFirst [] before" by (simp add: parentsFirst_append)
  from parentsFirst_member[OF this assms(2)] show ?thesis by simp
qed

lemma allocated_simps [simp]:
  "scopeOf (allocated n c st) = (scopeOf st)(id' n \<mapsto> LocalScope (OfNode (id' n)) c)"
  "heap (allocated n c st) = (heap st)(LocalScope (OfNode (id' n)) c := emptyFields)"
  "parentOf (allocated n c st) = parentOf st"
  by (simp_all add: allocated_def)

lemma registerAt_simps [simp]:
  "scopeOf (registerAt s cs st) = scopeOf st"
  "parentOf (registerAt s cs st) = parentOf st"
  "heap (registerAt s cs st) = (heap st)(s := register cs (heap st s))"
  by (simp_all add: registerAt_def)

lemma register_includedScopes [simp]: "includedScopes (register cs f) = includedScopes f"
  by (simp add: register_def)

lemma emptyFields_simps [simp]:
  "includedScopes emptyFields = []" "contributions emptyFields = Map.empty"
  by (simp_all add: emptyFields_def)

lemma scopeSkeleton_facts:
  assumes "scopeSkeleton n po st = Inr st'"
  shows "\<exists>c. containerRule st n po c
           \<and> scopeOf st' = (scopeOf st)(id' n \<mapsto> LocalScope (OfNode (id' n)) c)
           \<and> parentOf st' = parentOf st
           \<and> (\<forall>s. includedScopes (heap st' s) =
                    (if s = LocalScope (OfNode (id' n)) c then [] else includedScopes (heap st s)))"
proof -
  from scopeSkeleton_effect[OF assms] obtain c where
    c: "containerRule st n po c"
    and r: "st' = allocated n c st
              \<or> (\<exists>p ps. po = Some p \<and> isEntity n \<and> scopeOf (allocated n c st) (id' p) = Some ps
                   \<and> st' = registerAt ps (scopeContribution n) (allocated n c st))"
    by blast
  from r have "scopeOf st' = (scopeOf st)(id' n \<mapsto> LocalScope (OfNode (id' n)) c)
           \<and> parentOf st' = parentOf st
           \<and> (\<forall>s. includedScopes (heap st' s) =
                    (if s = LocalScope (OfNode (id' n)) c then [] else includedScopes (heap st s)))"
    by auto
  with c show ?thesis by blast
qed

lemma containerRule_stable:
  assumes "containerRule st n po c"
    and "parentOf st' = parentOf st"
    and "\<And>p. po = Some p \<Longrightarrow> scopeOf st' (id' p) = scopeOf st (id' p)"
    and "\<And>p g. po = Some p \<Longrightarrow> parentOf st (id' p) = Some g \<Longrightarrow> scopeOf st' (id' g) = scopeOf st (id' g)"
  shows "containerRule st' n po c"
  using assms unfolding containerRule_def by (cases po) (auto split: if_splits)

lemma skeleton_pass:
  assumes d: "distinct (map id' (nodes root))"
    and pc: "parentsCached root st0"
    and run: "forEach scopeSkeleton root st0 = Inr st1"
  shows "skeletonBuilt (traversal None root) st1"
proof -
  let ?T = "traversal None root"
  let ?I = "\<lambda>before s. skeletonBuilt before s \<and> parentOf s = parentOf st0"
  have dT: "distinct (map (\<lambda>x. id' (fst x)) ?T)"
    using d by (simp add: nodes_def comp_def)
  have "?I ?T st1"
  proof (rule foldE_invariant[where I = ?I and f = "\<lambda>(node, parent). scopeSkeleton node parent"])
    show "foldE (\<lambda>(node, parent). scopeSkeleton node parent) ?T st0 = Inr st1"
      using run by (simp add: forEach_def)
    show "?I [] st0" by (simp add: skeletonBuilt_def)
  next
    fix before x rest s s'
    assume T: "?T = before @ x # rest" and I: "?I before s"
      and step: "(case x of (node, parent) \<Rightarrow> scopeSkeleton node parent) s = Inr s'"
    obtain n po where x: "x = (n, po)" by (cases x)
    have fresh: "\<And>y. y \<in> set before \<Longrightarrow> id' (fst y) \<noteq> id' n"
      using distinct_split_notin[of "\<lambda>x. id' (fst x)" before "(n, po)" rest] dT
      unfolding T x by auto
    from step scopeSkeleton_facts[of n po s s'] obtain c where
      c: "containerRule s n po c"
      and so: "scopeOf s' = (scopeOf s)(id' n \<mapsto> LocalScope (OfNode (id' n)) c)"
      and po': "parentOf s' = parentOf s"
      and inc: "\<And>t. includedScopes (heap s' t) =
                    (if t = LocalScope (OfNode (id' n)) c then [] else includedScopes (heap s t))"
      unfolding x by auto
    have pst: "parentOf s = parentOf st0" using I by simp
    have inPrefix: "p \<in> fst ` set before" if "(m, Some p) \<in> set (before @ [x])" for m p
    proof (cases "(m, Some p) \<in> set before")
      case True
      from prefix_parent[OF T True] show ?thesis .
    next
      case False
      with that have "x = (m, Some p)" by simp
      with T have "traversal None root = before @ (m, Some p) # rest" by simp
      then show ?thesis by (rule traversal_parent_before)
    qed
    have grand: "g \<in> fst ` set before" if "p \<in> fst ` set before" "parentOf s (id' p) = Some g" for p g
    proof -
      from that(1) obtain z where z: "z \<in> set before" "fst z = p" by auto
      then have "z \<in> set ?T" unfolding T by simp
      then have "parentOf st0 (id' p) = snd z" using pc z(2) by (auto simp: parentsCached_def)
      with that(2) pst have "snd z = Some g" by simp
      with z have "(p, Some g) \<in> set before" by (metis prod.collapse)
      from prefix_parent[OF _ this, of root "x # rest"] T show ?thesis by simp
    qed
    have keep: "scopeOf s' (id' q) = scopeOf s (id' q)" if "q \<in> fst ` set before" for q
      using that fresh so by auto
    have stable: "containerRule s' m mo k"
      if "(m, mo) \<in> set (before @ [x])" "containerRule s m mo k" for m mo k
    proof (rule containerRule_stable[OF that(2)])
      show "parentOf s' = parentOf s" by (rule po')
    next
      fix p assume "mo = Some p"
      then have "p \<in> fst ` set before" using inPrefix that(1) by blast
      then show "scopeOf s' (id' p) = scopeOf s (id' p)" by (rule keep)
    next
      fix p g assume "mo = Some p" "parentOf s (id' p) = Some g"
      then have "g \<in> fst ` set before" using inPrefix that(1) grand by blast
      then show "scopeOf s' (id' g) = scopeOf s (id' g)" by (rule keep)
    qed
    have "skeletonBuilt (before @ [x]) s'"
      unfolding skeletonBuilt_def
    proof
      fix y assume y: "y \<in> set (before @ [x])"
      show "\<exists>k. scopeOf s' (id' (fst y)) = Some (LocalScope (OfNode (id' (fst y))) k)
              \<and> containerRule s' (fst y) (snd y) k
              \<and> includedScopes (heap s' (LocalScope (OfNode (id' (fst y))) k)) = []"
      proof (cases "y = x")
        case True
        have "containerRule s' n po c" using stable[of n po c] c by (simp add: x)
        then show ?thesis using True so inc by (auto simp: x)
      next
        case False
        with y have yb: "y \<in> set before" by simp
        with I obtain k where
          k: "scopeOf s (id' (fst y)) = Some (LocalScope (OfNode (id' (fst y))) k)"
             "containerRule s (fst y) (snd y) k"
             "includedScopes (heap s (LocalScope (OfNode (id' (fst y))) k)) = []"
          by (auto simp: skeletonBuilt_def)
        have "scopeOf s' (id' (fst y)) = Some (LocalScope (OfNode (id' (fst y))) k)"
          using k(1) so fresh[OF yb] by simp
        moreover have "containerRule s' (fst y) (snd y) k"
          using stable[of "fst y" "snd y" k] yb k(2) by simp
        moreover have "includedScopes (heap s' (LocalScope (OfNode (id' (fst y))) k)) = []"
          using inc k(3) fresh[OF yb] by simp
        ultimately show ?thesis by blast
      qed
    qed
    then show "?I (before @ [x]) s'" using po' pst by simp
  qed
  then show ?thesis by simp
qed

section \<open>Registration in the second pass\<close>

lemma fold_set_map_of:
  "fold (\<lambda>contribution m. m(fst contribution \<mapsto> snd contribution)) cs m0 k =
     (case map_of (rev cs) k of Some v \<Rightarrow> Some v | None \<Rightarrow> m0 k)"
proof (induction cs rule: rev_induct)
  case Nil
  then show ?case by simp
next
  case (snoc c cs)
  then show ?case by (cases c) simp
qed

lemma register_contributions:
  "contributions (register cs f) k =
     (case map_of (rev cs) k of Some v \<Rightarrow> Some v | None \<Rightarrow> contributions f k)"
  by (simp add: register_def fold_set_map_of)

lemma register_other_key:
  "k \<notin> fst ` set cs \<Longrightarrow> contributions (register cs f) k = contributions f k"
  by (simp add: register_contributions map_of_eq_None_iff[THEN iffD2] split: option.splits)

lemma scopeContribution_cases:
  "scopeContribution m = [] \<or> (\<exists>k. scopeContribution m = [(k, m)] \<and> name m = Some k \<and> k \<noteq> [])"
  by (auto simp: scopeContribution_def split: option.splits)

lemma scopeContribution_key:
  "(k, v) \<in> set (scopeContribution m) \<Longrightarrow> v = m \<and> name m = Some k \<and> k \<noteq> [] \<and> scopeContribution m = [(k, m)]"
  using scopeContribution_cases[of m] by auto

lemma register_scopeContribution:
  "(k, m) \<in> set (scopeContribution m) \<Longrightarrow> contributions (register (scopeContribution m) f) k = Some m"
  by (auto dest!: scopeContribution_key simp: register_contributions)

lemma importsLinked_simps [simp]:
  "scopeOf (importsLinked n ps entities gs st) = scopeOf st"
  by (simp add: importsLinked_def)

lemma importsLinked_heap:
  "heap (importsLinked n ps entities gs st) a =
     (if a = ps
      then (if ps = importScopeOf n then register (entityBindings entities) emptyFields else heap st ps)
             \<lparr> includedScopes := importScopeOf n # gs
                 @ includedScopes (if ps = importScopeOf n then register (entityBindings entities) emptyFields else heap st ps) \<rparr>
      else if a = importScopeOf n then register (entityBindings entities) emptyFields
      else heap st a)"
  by (simp add: importsLinked_def)

lemma ownChange_refl [simp]: "ownChange m sm st st"
  by (simp add: ownChange_def)

lemma ownChange_trans: "ownChange m sm a b \<Longrightarrow> ownChange m sm b c \<Longrightarrow> ownChange m sm a c"
  by (simp add: ownChange_def)

lemma crossLinks_own:
  assumes run: "crossLinks hierarchy environment m mo st = Inr st'"
    and own: "scopeOf st (id' m) = Some sm"
  shows "\<exists>st3. ownChange m sm st st3
           \<and> (case mo of
                 Some p \<Rightarrow>
                   if \<not> isEntity m
                   then (\<exists>ps. scopeOf st (id' p) = Some ps
                           \<and> st' = registerAt ps (scopeContribution m) st3)
                   else st' = st3
               | None \<Rightarrow> st' = st3)"
proof -
  from crossLinks_parts[OF run] obtain st1 st2 st3 where
    a: "(if kind m = Environment then registerGlobals environment m st else Inr st) = Inr st1"
    and b: "(if kind m = Package \<and> imports' m \<noteq> [] then linkImports m st1 else Inr st1) = Inr st2"
    and c: "(if isModule m then includeAncestors hierarchy m st2 else Inr st2) = Inr st3"
    and d: "(case mo of
               Some p \<Rightarrow>
                 if \<not> isEntity m
                 then bindE (getScope st3 p)
                        (\<lambda>parentScope. Inr (registerAt parentScope (scopeContribution m) st3))
                 else Inr st3
             | None \<Rightarrow> Inr st3) = Inr st'"
    by blast
  have A: "ownChange m sm st st1"
  proof (cases "kind m = Environment")
    case True
    with a registerGlobals_effect[of environment m st st1] own show ?thesis
      by (auto simp: ownChange_def)
  next
    case False
    with a show ?thesis by simp
  qed
  have B: "ownChange m sm st1 st2"
  proof (cases "kind m = Package \<and> imports' m \<noteq> []")
    case True
    with b linkImports_effect[of m st1 st2] own A show ?thesis
      by (auto simp: ownChange_def importsLinked_heap)
  next
    case False
    with b show ?thesis by auto
  qed
  have C: "ownChange m sm st2 st3"
  proof (cases "isModule m")
    case True
    with c includeAncestors_effect[of hierarchy m st2 st3] own A B show ?thesis
      by (auto simp: ownChange_def)
  next
    case False
    with c show ?thesis by simp
  qed
  have O: "ownChange m sm st st3" using A B C by (blast intro: ownChange_trans)
  then have so: "scopeOf st3 = scopeOf st" by (simp add: ownChange_def)
  have "(case mo of
                 Some p \<Rightarrow>
                   if \<not> isEntity m
                   then (\<exists>ps. scopeOf st (id' p) = Some ps
                           \<and> st' = registerAt ps (scopeContribution m) st3)
                   else st' = st3
               | None \<Rightarrow> st' = st3)"
    using d so by (cases mo) (auto simp: bindE_Inr_iff getScope_Inr split: if_splits)
  with O show ?thesis by blast
qed

section \<open>Own tables after the second pass\<close>

lemma skeletonBuilt_assigned:
  "skeletonBuilt (traversal None root) st \<Longrightarrow> scopesAssigned root st"
  by (auto simp: skeletonBuilt_def scopesAssigned_def nodes_def)

lemma assigned_scope:
  "scopesAssigned root st \<Longrightarrow> n \<in> set (nodes root) \<Longrightarrow>
     \<exists>c. scopeOf st (id' n) = Some (LocalScope (OfNode (id' n)) c)"
  by (simp add: scopesAssigned_def)

lemma assigned_owner:
  assumes "scopesAssigned root st" "n \<in> set (nodes root)" "scopeOf st (id' n) = Some s"
  shows "\<exists>c. s = LocalScope (OfNode (id' n)) c"
  using assigned_scope[OF assms(1,2)] assms(3) by auto

lemma same_id_same_node:
  "distinct (map id' (nodes root)) \<Longrightarrow> a \<in> set (nodes root) \<Longrightarrow> b \<in> set (nodes root)
     \<Longrightarrow> id' a = id' b \<Longrightarrow> a = b"
  by (auto simp: distinct_map dest: inj_onD)

lemma pair_in_nodes: "(n, po) \<in> set (traversal None root) \<Longrightarrow> n \<in> set (nodes root)"
  by (force simp: nodes_def)

lemma parent_in_nodes: "(n, Some p) \<in> set (traversal None root) \<Longrightarrow> p \<in> set (nodes root)"
  using traversal_pairs[of n p None root] by (auto simp: nodes_def)

lemma find_rev_snoc: "find P (rev (xs @ [x])) = (if P x then Some x else find P (rev xs))"
  by simp

lemma shadow_pass:
  assumes d: "distinct (map id' (nodes root))"
    and sa: "scopesAssigned root st1"
    and run: "forEach (crossLinks hierarchy environment) root st1 = Inr st2"
    and sp: "scopeOf st1 (id' p) = Some sp"
    and f: "(f, Some p) \<in> set (traversal None root)" "\<not> isEntity f"
           "(k, f) \<in> set (scopeContribution f)"
  shows "\<exists>g. (g, Some p) \<in> set (traversal None root) \<and> \<not> isEntity g
            \<and> (k, g) \<in> set (scopeContribution g) \<and> contributions (heap st2 sp) k = Some g"
proof -
  let ?T = "traversal None root"
  let ?M = "\<lambda>x. snd x = Some p \<and> \<not> isEntity (fst x) \<and> (k, fst x) \<in> set (scopeContribution (fst x))"
  let ?I = "\<lambda>before s. scopeOf s = scopeOf st1
              \<and> (\<forall>y. find ?M (rev before) = Some y \<longrightarrow> contributions (heap s sp) k = Some (fst y))"
  have dT: "distinct (map (\<lambda>x. id' (fst x)) ?T)"
    using d by (simp add: nodes_def comp_def)
  have pn: "p \<in> set (nodes root)" using f(1) by (rule parent_in_nodes)
  from assigned_owner[OF sa pn sp] obtain cp where spo: "sp = LocalScope (OfNode (id' p)) cp"
    by blast
  have "?I ?T st2"
  proof (rule foldE_invariant[where I = ?I
           and f = "\<lambda>(node, parent). crossLinks hierarchy environment node parent"])
    show "foldE (\<lambda>(node, parent). crossLinks hierarchy environment node parent) ?T st1 = Inr st2"
      using run by (simp add: forEach_def)
    show "?I [] st1" by simp
  next
    fix before x rest s s'
    assume T: "?T = before @ x # rest" and I: "?I before s"
      and step: "(case x of (node, parent) \<Rightarrow> crossLinks hierarchy environment node parent) s = Inr s'"
    obtain m mo where x: "x = (m, mo)" by (cases x)
    have xT: "(m, mo) \<in> set ?T" unfolding T x by simp
    then have mn: "m \<in> set (nodes root)" by (rule pair_in_nodes)
    have so: "scopeOf s = scopeOf st1" using I by simp
    from assigned_scope[OF sa mn] obtain cm where
      sm: "scopeOf s (id' m) = Some (LocalScope (OfNode (id' m)) cm)"
      unfolding so by blast
    from step have cl: "crossLinks hierarchy environment m mo s = Inr s'" by (simp add: x)
    from crossLinks_own[OF cl sm] obtain s3 where
      oc: "ownChange m (LocalScope (OfNode (id' m)) cm) s s3"
      and fin: "(case mo of
                 Some q \<Rightarrow>
                   if \<not> isEntity m
                   then (\<exists>ps. scopeOf s (id' q) = Some ps
                           \<and> s' = registerAt ps (scopeContribution m) s3)
                   else s' = s3
               | None \<Rightarrow> s' = s3)"
      by blast
    have so3: "scopeOf s3 = scopeOf s" using oc by (simp add: ownChange_def)
    have so': "scopeOf s' = scopeOf st1"
      using fin so so3 by (cases mo) (auto split: if_splits)
    have fresh: "\<And>y. y \<in> set before \<Longrightarrow> id' (fst y) \<noteq> id' m"
      using distinct_split_notin[of "\<lambda>x. id' (fst x)" before "(m, mo)" rest] dT
      unfolding T x by auto
    show "?I (before @ [x]) s'"
    proof (cases "?M x")
      case True
      then have mo: "mo = Some p" and ne: "\<not> isEntity m" and km: "(k, m) \<in> set (scopeContribution m)"
        by (simp_all add: x)
      from fin mo ne obtain ps where ps: "scopeOf s (id' p) = Some ps"
        and s': "s' = registerAt ps (scopeContribution m) s3" by auto
      from ps sp so have "ps = sp" by simp
      then have "contributions (heap s' sp) k = Some m"
        using s' register_scopeContribution[OF km] by simp
      then show ?thesis using True so' by (simp add: x)
    next
      case False
      have "contributions (heap s' sp) k = Some (fst y)" if y: "find ?M (rev before) = Some y" for y
      proof -
        from find_Some_mem[OF y] have yb: "y \<in> set before" and yM: "?M y" by simp_all
        then have "(fst y, Some p) \<in> set before" by (metis prod.collapse)
        from prefix_parent[OF T this] have "p \<in> fst ` set before" .
        then have pm: "id' p \<noteq> id' m" using fresh by auto
        have old: "contributions (heap s sp) k = Some (fst y)" using I y by blast
        have h3: "heap s3 sp = heap s sp"
          using oc pm by (simp add: ownChange_def spo importScopeOf_def)
        show ?thesis
        proof (cases "\<exists>q. mo = Some q \<and> \<not> isEntity m")
          case True
          then obtain q where q: "mo = Some q" "\<not> isEntity m" by blast
          with fin obtain ps where ps: "scopeOf s (id' q) = Some ps"
            and s': "s' = registerAt ps (scopeContribution m) s3" by auto
          show ?thesis
          proof (cases "ps = sp")
            case True
            have qn: "q \<in> set (nodes root)" using xT q(1) parent_in_nodes by blast
            from ps so have "scopeOf st1 (id' q) = Some ps" by simp
            from assigned_owner[OF sa qn this] obtain cq where "ps = LocalScope (OfNode (id' q)) cq"
              by blast
            with True spo have "id' q = id' p" by simp
            with same_id_same_node[OF d qn pn] have "q = p" by simp
            with False q have "(k, m) \<notin> set (scopeContribution m)" by (simp add: x)
            then have "k \<notin> fst ` set (scopeContribution m)"
              using scopeContribution_key[of k _ m] by force
            then show ?thesis
              using s' True h3 old by (simp add: register_other_key)
          next
            case False
            then show ?thesis using s' h3 old by simp
          qed
        next
          case False
          with fin have "s' = s3" by (cases mo) (auto split: if_splits)
          then show ?thesis using h3 old by simp
        qed
      qed
      moreover have "find ?M (rev (before @ [x])) = find ?M (rev before)"
        using False by auto
      ultimately show ?thesis using so' by presburger
    qed
  qed
  then have fin: "\<And>y. find ?M (rev ?T) = Some y \<Longrightarrow> contributions (heap st2 sp) k = Some (fst y)"
    by blast
  have "\<exists>y. find ?M (rev ?T) = Some y"
  proof (cases "find ?M (rev ?T)")
    case None
    then have "\<not> ?M (f, Some p)" using f(1) by (auto simp: find_None_iff)
    then show ?thesis using f by simp
  next
    case (Some y)
    then show ?thesis by blast
  qed
  then obtain y where y: "find ?M (rev ?T) = Some y" by blast
  from find_Some_mem[OF y] have "y \<in> set ?T" "?M y" by simp_all
  then have "(fst y, Some p) \<in> set ?T" by (metis prod.collapse)
  then show ?thesis using \<open>?M y\<close> fin[OF y] by blast
qed

section \<open>Imports and validation\<close>

lemma same_id_same_pair:
  assumes "distinct (map id' (nodes root))"
    and "x \<in> set (traversal None root)" "y \<in> set (traversal None root)"
    and "id' (fst x) = id' (fst y)"
  shows "x = y"
proof -
  have "distinct (map (\<lambda>x. id' (fst x)) (traversal None root))"
    using assms(1) by (simp add: nodes_def comp_def)
  then have "inj_on (\<lambda>x. id' (fst x)) (set (traversal None root))"
    by (simp add: distinct_map)
  then show ?thesis using assms(2-4) by (auto dest: inj_onD)
qed

lemma getScope_cong: "scopeOf a = scopeOf b \<Longrightarrow> getScope a = getScope b"
  by (rule ext) (simp add: getScope_def)

lemma imports_pass:
  assumes d: "distinct (map id' (nodes root))"
    and sa: "scopesAssigned root st1"
    and run: "forEach (crossLinks hierarchy root) root st1 = Inr st2"
    and P: "(P, Po) \<in> set (traversal None root)" "kind P = Package" "imports' P \<noteq> []"
    and sP: "scopeOf st1 (id' P) = Some sP"
    and inc0: "includedScopes (heap st1 sP) = []"
  shows "\<exists>entities gs visited.
           visitedAt hierarchy root st1 P visited
         \<and> importsResolved visited P entities gs
         \<and> includedScopes (heap st2 sP) = importScopeOf P # gs
         \<and> contributions (heap st2 (importScopeOf P))
             = contributions (register (entityBindings entities) emptyFields)"
proof -
  let ?T = "traversal None root"
  let ?L = "\<lambda>s. \<exists>entities gs visited.
           visitedAt hierarchy root st1 P visited
         \<and> importsResolved visited P entities gs
         \<and> includedScopes (heap s sP) = importScopeOf P # gs
         \<and> contributions (heap s (importScopeOf P))
             = contributions (register (entityBindings entities) emptyFields)"
  let ?I = "\<lambda>before s. scopeOf s = scopeOf st1
              \<and> (if (P, Po) \<in> set before then ?L s else includedScopes (heap s sP) = [])"
  have Pn: "P \<in> set (nodes root)" using P(1) by (rule pair_in_nodes)
  from assigned_owner[OF sa Pn sP] obtain cP where sPo: "sP = LocalScope (OfNode (id' P)) cP"
    by blast
  have "?I ?T st2"
  proof (rule foldE_prefix_invariant[where I = ?I
           and f = "\<lambda>(node, parent). crossLinks hierarchy root node parent"])
    show "foldE (\<lambda>(node, parent). crossLinks hierarchy root node parent) ?T st1 = Inr st2"
      using run by (simp add: forEach_def)
    show "?I [] st1" using inc0 by simp
  next
    fix before x rest s s'
    assume T: "?T = before @ x # rest"
      and pre: "foldE (\<lambda>(node, parent). crossLinks hierarchy root node parent) before st1 = Inr s"
      and I: "?I before s"
      and step: "(case x of (node, parent) \<Rightarrow> crossLinks hierarchy root node parent) s = Inr s'"
    obtain m mo where x: "x = (m, mo)" by (cases x)
    have xT: "(m, mo) \<in> set ?T" unfolding T x by simp
    then have mn: "m \<in> set (nodes root)" by (rule pair_in_nodes)
    have so: "scopeOf s = scopeOf st1" using I by simp
    from assigned_scope[OF sa mn] obtain cm where
      sm: "scopeOf s (id' m) = Some (LocalScope (OfNode (id' m)) cm)"
      unfolding so by blast
    from step have cl: "crossLinks hierarchy root m mo s = Inr s'" by (simp add: x)
    have dT: "distinct (map (\<lambda>x. id' (fst x)) ?T)"
      using d by (simp add: nodes_def comp_def)
    have notBefore: "(m, mo) \<notin> set before"
      using dT unfolding T x by (auto simp: image_iff)
    show "?I (before @ [x]) s'"
    proof (cases "(m, mo) = (P, Po)")
      case True
      then have mP: "m = P" "mo = Po" by simp_all
      have inc: "includedScopes (heap s sP) = []" using I notBefore True by auto
      from crossLinks_parts[OF cl] obtain a b c where
        a: "(if kind m = Environment then registerGlobals root m s else Inr s) = Inr a"
        and b: "(if kind m = Package \<and> imports' m \<noteq> [] then linkImports m a else Inr a) = Inr b"
        and c: "(if isModule m then includeAncestors hierarchy m b else Inr b) = Inr c"
        and e: "(case mo of
               Some p \<Rightarrow>
                 if \<not> isEntity m
                 then bindE (getScope c p)
                        (\<lambda>parentScope. Inr (registerAt parentScope (scopeContribution m) c))
                 else Inr c
             | None \<Rightarrow> Inr c) = Inr s'"
        by blast
      have "a = s" using a P(2) mP by simp
      moreover have "c = b" using c P(2) mP by (simp add: isModule_def)
      moreover have "isEntity m" using P(2) mP by (simp add: isEntity_def)
      then have "s' = c" using e by (cases mo) simp_all
      ultimately have "linkImports P s = Inr s'" using b P(2,3) mP by simp
      from linkImports_effect[OF this] obtain ps entities gs where
        ps: "scopeOf s (id' P) = Some ps"
        and es: "mapE (importedEntity (s\<lparr> heap := (heap s)(importScopeOf P := emptyFields) \<rparr>))
           (filter (\<lambda>imported. \<not> isGeneric imported) (imports' P)) = Inr entities"
        and gs: "mapE (\<lambda>imported.
                bindE (importedEntity
                         (s\<lparr> heap := (heap s)(importScopeOf P := register (entityBindings entities) emptyFields) \<rparr>)
                         imported)
                      (getScope s))
           (filter isGeneric (imports' P)) = Inr gs"
        and s': "s' = importsLinked P ps entities gs s"
        by blast
      have "ps = sP" using ps sP so by simp
      have "visitedAt hierarchy root st1 P s"
        unfolding visitedAt_def using T pre x mP by blast
      moreover have "importsResolved s P entities gs"
        unfolding importsResolved_def using es gs by simp
      moreover have "includedScopes (heap s' sP) = importScopeOf P # gs"
        using s' \<open>ps = sP\<close> inc by (simp add: importsLinked_heap sPo importScopeOf_def)
      moreover have "contributions (heap s' (importScopeOf P))
             = contributions (register (entityBindings entities) emptyFields)"
        using s' \<open>ps = sP\<close> by (simp add: importsLinked_heap sPo importScopeOf_def)
      moreover have "scopeOf s' = scopeOf st1" using s' so by simp
      ultimately show ?thesis using True by (auto simp: x)
    next
      case False
      have idne: "id' m \<noteq> id' P"
        using same_id_same_pair[OF d xT P(1)] False by auto
      from crossLinks_own[OF cl sm] obtain s3 where
        oc: "ownChange m (LocalScope (OfNode (id' m)) cm) s s3"
        and fin: "(case mo of
                 Some q \<Rightarrow>
                   if \<not> isEntity m
                   then (\<exists>ps. scopeOf s (id' q) = Some ps
                           \<and> s' = registerAt ps (scopeContribution m) s3)
                   else s' = s3
               | None \<Rightarrow> s' = s3)"
        by blast
      have so3: "scopeOf s3 = scopeOf s" using oc by (simp add: ownChange_def)
      have h3: "heap s3 sP = heap s sP" "heap s3 (importScopeOf P) = heap s (importScopeOf P)"
        using oc idne by (simp_all add: ownChange_def sPo importScopeOf_def)
      have fr: "scopeOf s' = scopeOf st1
              \<and> includedScopes (heap s' sP) = includedScopes (heap s sP)
              \<and> heap s' (importScopeOf P) = heap s (importScopeOf P)"
      proof (cases "\<exists>q. mo = Some q \<and> \<not> isEntity m")
        case True
        then obtain q where q: "mo = Some q" "\<not> isEntity m" by blast
        with fin obtain ps where ps: "scopeOf s (id' q) = Some ps"
          and s': "s' = registerAt ps (scopeContribution m) s3" by auto
        have qn: "q \<in> set (nodes root)" using xT q(1) parent_in_nodes by blast
        from ps so have "scopeOf st1 (id' q) = Some ps" by simp
        from assigned_owner[OF sa qn this] obtain cq where "ps = LocalScope (OfNode (id' q)) cq"
          by blast
        then have "ps \<noteq> importScopeOf P" by (simp add: importScopeOf_def)
        then show ?thesis using s' h3 so so3 by auto
      next
        case False
        with fin have "s' = s3" by (cases mo) (auto split: if_splits)
        then show ?thesis using h3 so so3 by simp
      qed
      have "((P, Po) \<in> set (before @ [x])) = ((P, Po) \<in> set before)"
        using False by (auto simp: x)
      then show ?thesis using I fr by simp
    qed
  qed
  then have "?L st2" and so2: "scopeOf st2 = scopeOf st1" using P(1) by simp_all
  then show ?thesis by blast
qed

lemma scopes_defined:
  assumes "forEach scopeSkeleton root st0 = Inr st1"
  shows "\<forall>n \<in> set (nodes root). scopeOf st1 (id' n) \<noteq> None"
proof -
  let ?I = "\<lambda>(before :: (node \<times> node option) list) s.
              \<forall>y \<in> set before. scopeOf s (id' (fst y)) \<noteq> None"
  have "?I (traversal None root) st1"
  proof (rule foldE_invariant[where I = ?I and f = "\<lambda>(node, parent). scopeSkeleton node parent"])
    show "foldE (\<lambda>(node, parent). scopeSkeleton node parent) (traversal None root) st0 = Inr st1"
      using assms by (simp add: forEach_def)
    show "?I [] st0" by simp
  next
    fix before x rest s s'
    assume I: "?I before s"
      and step: "(case x of (node, parent) \<Rightarrow> scopeSkeleton node parent) s = Inr s'"
    obtain n po where x: "x = (n, po)" by (cases x)
    from step scopeSkeleton_facts[of n po s s'] obtain c where
      "scopeOf s' = (scopeOf s)(id' n \<mapsto> LocalScope (OfNode (id' n)) c)"
      unfolding x by auto
    then show "?I (before @ [x]) s'" using I by (auto simp: x)
  qed
  then show ?thesis by (auto simp: nodes_def)
qed

lemma assignScopes_defined:
  assumes "assignScopes hierarchy root st0 = Inr st"
  shows "\<forall>n \<in> set (nodes root). scopeOf st (id' n) \<noteq> None"
proof -
  from assignScopes_parts[OF assms] obtain st1 where
    a: "forEach scopeSkeleton root st0 = Inr st1"
    and b: "forEach (crossLinks hierarchy root) root st1 = Inr st"
    by blast
  from forEach_crossLinks_sameSlots[OF b] have "scopeOf st = scopeOf st1"
    by (simp add: sameSlots_def)
  with scopes_defined[OF a] show ?thesis by simp
qed

lemma validate_result:
  "scopeOf st (id' n) \<noteq> None \<Longrightarrow>
     validate n po st =
       (if kind n = Reference \<and> \<not> resolvesFromOwnScope st n
        then Inl (UnlinkedReference (name n) (source n)) else Inr st)"
  by (auto simp: validate_def target_def getScope_def resolvesFromOwnScope_def
      split: option.splits sum.splits)

lemma resolvesFromOwnScope_steps:
  "resolvesFromOwnScope st reference =
     (\<exists>referenceScope qualifiedName.
        scopeOf st (id' reference) = Some referenceScope
      \<and> name reference = Some qualifiedName
      \<and> (case divideOn CHR ''.'' qualifiedName of
           (start, rest) \<Rightarrow>
             (case resolve (heap st) referenceScope start True of
                None \<Rightarrow> False
              | Some root \<Rightarrow>
                  rest = []
                  \<or> (\<exists>rootScope found. scopeOf st (id' root) = Some rootScope
                        \<and> ownMembersPath st rootScope rest = Inr found))))"
proof (cases "scopeOf st (id' reference)")
  case None
  then show ?thesis by (simp add: resolvesFromOwnScope_def)
next
  case (Some referenceScope)
  show ?thesis
  proof (cases "name reference")
    case None
    then show ?thesis using Some by (simp add: resolvesFromOwnScope_def)
  next
    case (Some qualifiedName)
    obtain start rest where d: "divideOn CHR ''.'' qualifiedName = (start, rest)"
      by (cases "divideOn CHR ''.'' qualifiedName")
    have "(case resolveQualified st referenceScope qualifiedName True of
             Inl failure \<Rightarrow> False | Inr found \<Rightarrow> True)
        = (case resolve (heap st) referenceScope start True of
                None \<Rightarrow> False
              | Some root \<Rightarrow>
                  rest = []
                  \<or> (\<exists>rootScope found. scopeOf st (id' root) = Some rootScope
                        \<and> ownMembersPath st rootScope rest = Inr found))"
      by (subst resolveQualified.simps)
         (auto simp: d resolveQualified_own split: option.splits sum.splits)
    then show ?thesis
      using Some \<open>scopeOf st (id' reference) = Some referenceScope\<close>
      by (simp add: resolvesFromOwnScope_def d)
  qed
qed

lemma validate_fold:
  "\<forall>x \<in> set xs. scopeOf st (id' (fst x)) \<noteq> None \<Longrightarrow>
     foldE (\<lambda>(node, parent). validate node parent) xs st =
       (case find (\<lambda>r. kind r = Reference \<and> \<not> resolvesFromOwnScope st r) (map fst xs) of
          Some r \<Rightarrow> Inl (UnlinkedReference (name r) (source r))
        | None \<Rightarrow> Inr st)"
proof (induction xs)
  case Nil
  then show ?case by simp
next
  case (Cons x xs)
  obtain n po where x: "x = (n, po)" by (cases x)
  from Cons.prems have "scopeOf st (id' n) \<noteq> None" by (simp add: x)
  then show ?case using Cons by (simp add: x validate_result)
qed

lemma fillCaches_total: "\<exists>st'. foldE (\<lambda>(node, parent). fillCaches environment node parent) xs st = Inr st'"
proof (induction xs arbitrary: st)
  case Nil
  then show ?case by simp
next
  case (Cons x xs)
  obtain n po where x: "x = (n, po)" by (cases x)
  obtain s1 where "fillCaches environment n po st = Inr s1"
    by (simp add: fillCaches_def Let_def)
  then show ?case using Cons[of s1] by (simp add: x)
qed

lemma skeleton_from_assign:
  assumes d: "distinct (map id' (nodes root))"
    and pc: "parentsCached root st0"
    and run: "assignScopes hierarchy root st0 = Inr st"
  shows "\<exists>st1. forEach scopeSkeleton root st0 = Inr st1
            \<and> forEach (crossLinks hierarchy root) root st1 = Inr st
            \<and> skeletonBuilt (traversal None root) st1
            \<and> scopesAssigned root st1
            \<and> scopeOf st = scopeOf st1"
proof -
  from assignScopes_parts[OF run] obtain st1 where
    a: "forEach scopeSkeleton root st0 = Inr st1"
    and b: "forEach (crossLinks hierarchy root) root st1 = Inr st"
    by blast
  from skeleton_pass[OF d pc a] have sb: "skeletonBuilt (traversal None root) st1" .
  from forEach_crossLinks_sameSlots[OF b] have "scopeOf st = scopeOf st1"
    by (simp add: sameSlots_def)
  with a b sb skeletonBuilt_assigned[OF sb] show ?thesis by blast
qed

section \<open>Entities in the first pass\<close>

lemma scopeSkeleton_registers:
  assumes "scopeSkeleton n po st = Inr st'"
  shows "\<exists>c. if isEntity n
              then (\<exists>p ps. po = Some p \<and> scopeOf (allocated n c st) (id' p) = Some ps
                      \<and> st' = registerAt ps (scopeContribution n) (allocated n c st))
              else st' = allocated n c st"
proof -
  from assms obtain c where
    r: "(if isEntity n
              then (case po of
                      None \<Rightarrow> Inl TypeError
                    | Some p \<Rightarrow>
                        bindE (getScope (allocated n c st) p)
                          (\<lambda>parentScope. Inr (registerAt parentScope (scopeContribution n) (allocated n c st))))
              else Inr (allocated n c st)) = Inr st'"
    unfolding scopeSkeleton_alt bindE_Inr_iff by blast
  show ?thesis
  proof (cases "isEntity n")
    case True
    with r obtain p where p: "po = Some p" by (cases po) simp_all
    with r True obtain ps where "getScope (allocated n c st) p = Inr ps"
      and "st' = registerAt ps (scopeContribution n) (allocated n c st)"
      by (auto simp: bindE_Inr_iff)
    then show ?thesis using True p by (intro exI[of _ c]) (simp add: getScope_Inr)
  next
    case False
    with r show ?thesis by (intro exI[of _ c]) simp
  qed
qed

lemma entity_pass:
  assumes d: "distinct (map id' (nodes root))"
    and run: "forEach scopeSkeleton root st0 = Inr st1"
    and e: "(e, Some p) \<in> set (traversal None root)" "isEntity e"
           "(k, e) \<in> set (scopeContribution e)"
  shows "\<exists>g sp. (g, Some p) \<in> set (traversal None root) \<and> isEntity g
            \<and> (k, g) \<in> set (scopeContribution g)
            \<and> scopeOf st1 (id' p) = Some sp \<and> contributions (heap st1 sp) k = Some g"
proof -
  let ?T = "traversal None root"
  let ?M = "\<lambda>x. snd x = Some p \<and> isEntity (fst x) \<and> (k, fst x) \<in> set (scopeContribution (fst x))"
  let ?I = "\<lambda>(before :: (node \<times> node option) list) s.
              (\<forall>y \<in> set before. \<exists>c. scopeOf s (id' (fst y)) = Some (LocalScope (OfNode (id' (fst y))) c))
              \<and> (\<forall>y. find ?M (rev before) = Some y \<longrightarrow>
                    (\<exists>sp. scopeOf s (id' p) = Some sp \<and> contributions (heap s sp) k = Some (fst y)))"
  have dT: "distinct (map (\<lambda>x. id' (fst x)) ?T)"
    using d by (simp add: nodes_def comp_def)
  have pn: "p \<in> set (nodes root)" using e(1) by (rule parent_in_nodes)
  have "?I ?T st1"
  proof (rule foldE_invariant[where I = ?I and f = "\<lambda>(node, parent). scopeSkeleton node parent"])
    show "foldE (\<lambda>(node, parent). scopeSkeleton node parent) ?T st0 = Inr st1"
      using run by (simp add: forEach_def)
    show "?I [] st0" by simp
  next
    fix before x rest s s'
    assume T: "?T = before @ x # rest" and I: "?I before s"
      and step: "(case x of (node, parent) \<Rightarrow> scopeSkeleton node parent) s = Inr s'"
    obtain m mo where x: "x = (m, mo)" by (cases x)
    have xT: "(m, mo) \<in> set ?T" unfolding T x by simp
    have fresh: "\<And>y. y \<in> set before \<Longrightarrow> id' (fst y) \<noteq> id' m"
      using distinct_split_notin[of "\<lambda>x. id' (fst x)" before "(m, mo)" rest] dT
      unfolding T x by auto
    from step have "scopeSkeleton m mo s = Inr s'" by (simp add: x)
    from scopeSkeleton_registers[OF this] obtain c where
      eff: "if isEntity m
              then (\<exists>q ps. mo = Some q \<and> scopeOf (allocated m c s) (id' q) = Some ps
                      \<and> s' = registerAt ps (scopeContribution m) (allocated m c s))
              else s' = allocated m c s"
      by blast
    have so': "scopeOf s' = (scopeOf s)(id' m \<mapsto> LocalScope (OfNode (id' m)) c)"
      using eff by (auto split: if_splits)
    have owned: "\<exists>c. scopeOf s (id' q) = Some (LocalScope (OfNode (id' q)) c)"
      if "q \<in> fst ` set before" for q
      using that I by auto
    have kept: "scopeOf s' (id' q) = scopeOf s (id' q)" if "q \<in> fst ` set before" for q
      using that fresh so' by auto
    have I1: "\<forall>y \<in> set (before @ [x]). \<exists>c. scopeOf s' (id' (fst y)) = Some (LocalScope (OfNode (id' (fst y))) c)"
    proof
      fix y assume y: "y \<in> set (before @ [x])"
      show "\<exists>c. scopeOf s' (id' (fst y)) = Some (LocalScope (OfNode (id' (fst y))) c)"
      proof (cases "y = x")
        case True
        then show ?thesis using so' by (simp add: x)
      next
        case False
        with y have yb: "y \<in> set before" by simp
        then have "fst y \<in> fst ` set before" by simp
        from kept[OF this] owned[OF this] show ?thesis by simp
      qed
    qed
    have I2: "\<exists>sp. scopeOf s' (id' p) = Some sp \<and> contributions (heap s' sp) k = Some (fst y)"
      if y: "find ?M (rev (before @ [x])) = Some y" for y
    proof (cases "?M x")
      case True
      then have mo: "mo = Some p" and en: "isEntity m" and km: "(k, m) \<in> set (scopeContribution m)"
        by (simp_all add: x)
      from y True have yx: "y = x" by simp
      from eff en mo obtain ps where ps: "scopeOf (allocated m c s) (id' p) = Some ps"
        and s': "s' = registerAt ps (scopeContribution m) (allocated m c s)" by auto
      have "scopeOf s' (id' p) = Some ps" using ps s' by simp
      moreover have "contributions (heap s' ps) k = Some m"
        using s' register_scopeContribution[OF km] by simp
      ultimately show ?thesis by (simp add: yx x)
    next
      case False
      with y have yb': "find ?M (rev before) = Some y" by simp
      from find_Some_mem[OF yb'] have yb: "y \<in> set before" and yM: "?M y" by simp_all
      then have "(fst y, Some p) \<in> set before" by (metis prod.collapse)
      from prefix_parent[OF T this] have pb: "p \<in> fst ` set before" .
      from owned[OF pb] obtain cp where
        sp: "scopeOf s (id' p) = Some (LocalScope (OfNode (id' p)) cp)" by blast
      let ?sp = "LocalScope (OfNode (id' p)) cp"
      have pm: "id' p \<noteq> id' m" using pb fresh by auto
      have sp': "scopeOf s' (id' p) = Some ?sp" using kept[OF pb] sp by simp
      from I yb' sp have old: "contributions (heap s ?sp) k = Some (fst y)" by auto
      have ha: "heap (allocated m c s) ?sp = heap s ?sp" using pm by simp
      have "contributions (heap s' ?sp) k = Some (fst y)"
      proof (cases "isEntity m")
        case True
        with eff obtain q ps where q: "mo = Some q"
          and ps: "scopeOf (allocated m c s) (id' q) = Some ps"
          and s': "s' = registerAt ps (scopeContribution m) (allocated m c s)" by auto
        show ?thesis
        proof (cases "ps = ?sp")
          case True
          have "traversal None root = before @ (m, Some q) # rest" using T x q by simp
          then have qb: "q \<in> fst ` set before" by (rule traversal_parent_before)
          then have "id' q \<noteq> id' m" using fresh by auto
          with ps have "scopeOf s (id' q) = Some ps" by simp
          with owned[OF qb] True have "id' q = id' p" by auto
          moreover have "q \<in> set (nodes root)" using xT q parent_in_nodes by blast
          ultimately have "q = p" using same_id_same_node[OF d _ pn] by blast
          with False q \<open>isEntity m\<close> have "(k, m) \<notin> set (scopeContribution m)" by (simp add: x)
          then have "k \<notin> fst ` set (scopeContribution m)"
            using scopeContribution_key[of k _ m] by force
          then show ?thesis using s' True ha old by (simp add: register_other_key)
        next
          case False
          then show ?thesis using s' ha old by simp
        qed
      next
        case False
        with eff have "s' = allocated m c s" by simp
        then show ?thesis using ha old by simp
      qed
      with sp' show ?thesis by blast
    qed
    from I1 I2 show "?I (before @ [x]) s'" by blast
  qed
  then have fin: "\<And>y. find ?M (rev ?T) = Some y \<Longrightarrow>
      \<exists>sp. scopeOf st1 (id' p) = Some sp \<and> contributions (heap st1 sp) k = Some (fst y)"
    by blast
  have "\<exists>y. find ?M (rev ?T) = Some y"
  proof (cases "find ?M (rev ?T)")
    case None
    then have "\<not> ?M (e, Some p)" using e(1) by (auto simp: find_None_iff)
    then show ?thesis using e by simp
  next
    case (Some y)
    then show ?thesis by blast
  qed
  then obtain y where y: "find ?M (rev ?T) = Some y" by blast
  from find_Some_mem[OF y] have "y \<in> set ?T" "?M y" by simp_all
  then have "(fst y, Some p) \<in> set ?T" by (metis prod.collapse)
  then show ?thesis using \<open>?M y\<close> fin[OF y] by blast
qed

section \<open>Runs of the examples\<close>

lemmas evalRules =
  forEach_def traversal_unfold children_def
  scopeSkeleton_def newLocalScope_def Let_def isEntity_def getScope_def registerAt_def register_def
  scopeContribution_def crossLinks_def registerGlobals_def GLOBAL_PACKAGES_def hasMembers_def
  isModule_def linkImports_def importedEntity_def entity_def includeAncestors_def
  resolveQualified.simps resolve.simps divideOn_def emptyFields_def emptyState_def
  assignScopes_def fillCaches_def validate_def target_def

lemmas exampleDefs =
  exampleRoot_def examplePackage_def exampleImported_def exampleDescribe_def exampleField_def
  exampleTest_def exampleClass_def exampleReference_def noAncestors_def

lemma exampleRoot_distinct: "distinct (map id' (nodes exampleRoot))"
  by (simp add: nodes_def traversal_unfold children_def exampleDefs)

lemma exampleRoot_caches:
  "\<exists>st0. forEach (fillCaches exampleRoot) exampleRoot emptyState = Inr st0"
  using fillCaches_total[of exampleRoot "traversal None exampleRoot" emptyState]
  by (simp add: forEach_def)

lemma exampleRoot_cached:
  "forEach (fillCaches exampleRoot) exampleRoot emptyState = Inr st0 \<Longrightarrow> parentsCached exampleRoot st0"
  using fillCaches_filled[OF exampleRoot_distinct, of exampleRoot st0]
  by (simp add: parentsCached_def)

lemma exampleRoot_skeleton:
  "\<exists>st0 st1. forEach (fillCaches exampleRoot) exampleRoot emptyState = Inr st0
      \<and> forEach scopeSkeleton exampleRoot st0 = Inr st1"
  by (simp add: evalRules exampleDefs)

lemma exampleRoot_assigned:
  "\<exists>st0 st. forEach (fillCaches exampleRoot) exampleRoot emptyState = Inr st0
      \<and> assignScopes noAncestors exampleRoot st0 = Inr st
      \<and> resolve (heap st) (LocalScope (OfNode 9) (Some (LocalScope (OfNode 1) None))) ''A'' True
           = Some exampleImported
      \<and> scopeOf st 9 = Some (LocalScope (OfNode 9) (Some (LocalScope (OfNode 1) None)))
      \<and> scopeOf st 16 = Some (LocalScope (OfNode 16) (Some (LocalScope (OfNode 9) (Some (LocalScope (OfNode 1) None)))))
      \<and> contributions (heap st (LocalScope (OfNode 16) (Some (LocalScope (OfNode 9) (Some (LocalScope (OfNode 1) None)))))) ''t''
           = Some exampleField"
  by (simp add: evalRules exampleDefs)

lemmas linkRules = link_def newEnvironment_def mergePackage_package mergePackage_other
  linkedPackages_def unlinkedPackages_def qualifiedPackages_def danglingPackages_def
  noAncestors_def

lemma linked_run:
  "\<exists>st. link (\<lambda>k. k) noAncestors linkedPackages None =
     Inr (Node Environment 1 None False [] []
            [Node Package 2 (Some ''wollok'') False [] []
               [Node Package 3 (Some ''lang'') False [] []
                  [Node Class 4 (Some ''Object'') False [] [] [] []] [],
                Node Package 5 (Some ''lib'') False [] [] [] []] [],
             Node Package 6 (Some ''p'') False [] []
               [Node Class 7 (Some ''C'') False [] [] []
                  [Node Reference 8 (Some ''Object'') False ''p.wlk:1'' [] [] []]] []]
            [], st)"
  by (simp add: linkRules evalRules)

lemma unlinked_run:
  "link (\<lambda>k. k) noAncestors unlinkedPackages None = Inl (UnlinkedReference (Some ''Missing'') ''p.wlk:1'')"
  by (simp add: linkRules evalRules)

lemma qualified_run:
  "\<exists>st. link (\<lambda>k. k) noAncestors qualifiedPackages None =
     Inr (Node Environment 1 None False [] []
            [Node Package 2 (Some ''wollok'') False [] []
               [Node Package 3 (Some ''lang'') False [] []
                  [Node Class 4 (Some ''Object'') False [] [] [] []] [],
                Node Package 5 (Some ''lib'') False [] [] [] []] [],
             Node Package 6 (Some ''q'') False [] []
               [Node Class 7 (Some ''A'') False [] [] [] []] [],
             Node Package 8 (Some ''p'') False []
               [Node Import 9 None False [] [] []
                  [Node Reference 10 (Some ''q.A'') False [] [] [] []]]
               [Node Class 11 (Some ''C'') False [] [] []
                  [Node Reference 12 (Some ''wollok.lang.Object'') False ''p.wlk:1'' [] [] []]] []]
            [], st)"
  by (simp add: linkRules evalRules)

lemma dangling_run:
  "link (\<lambda>k. k) noAncestors danglingPackages None
     = Inl (UnlinkedReference (Some ''wollok.lang.Missing'') ''p.wlk:1'')"
  by (simp add: linkRules evalRules)

section \<open>Claims about merging\<close>

text \<open>
  C2, as the code has it. One merge step puts the new entity, or the package merged
  from the colliding existing package, at the end of the list; the existing members that
  remain keep their relative order (the rest of the result is a subsequence of the old
  list). A new entity whose name no existing member has is appended and nothing is
  removed. A new package that collides with an existing package of the same name removes
  that package from its position and appends the merged package at the end. For a whole
  list of new entities: the result is a subsequence of the old members followed by at
  most one entry per new entity, each carrying the name of a new entity; without any
  collision it is the old list followed by the new one.
\<close>

theorem mergePackage_order:
  "subseq (butlast (mergePackage ms isolated)) ms
   \<and> mergePackage ms isolated \<noteq> []
   \<and> name (last (mergePackage ms isolated)) = name isolated
   \<and> ((\<forall>m \<in> set ms. name m \<noteq> name isolated) \<longrightarrow> mergePackage ms isolated = ms @ [isolated])
   \<and> (\<forall>existent.
         kind isolated = Package
         \<and> find (\<lambda>member. kind member = Package \<and> name member = name isolated) ms = Some existent
         \<longrightarrow> mergePackage ms isolated =
               remove1 existent ms
               @ [withMembers existent (mergeAll (members isolated) (members existent))])
   \<and> (\<exists>kept added.
         mergeAll news ms = kept @ added \<and> subseq kept ms \<and> length added \<le> length news
         \<and> name ` set added \<subseteq> name ` set news)
   \<and> (distinct (map name news) \<and> name ` set ms \<inter> name ` set news = {}
         \<longrightarrow> mergeAll news ms = ms @ news)"
proof -
  have "\<forall>existent.
         kind isolated = Package
         \<and> find (\<lambda>member. kind member = Package \<and> name member = name isolated) ms = Some existent
         \<longrightarrow> mergePackage ms isolated =
               remove1 existent ms
               @ [withMembers existent (mergeAll (members isolated) (members existent))]"
    by (simp add: mergePackage_package)
  then show ?thesis
    using mergePackage_butlast_subseq[of ms isolated] mergePackage_last[of ms isolated]
      mergePackage_fresh[of ms isolated] mergeAll_order[of news ms] mergeAll_fresh[of news ms]
    by blast
qed

theorem mergePackage_order_witness:
  "mergePackage [aClass ''c'' []] (aClass ''d'' []) = [aClass ''c'' [], aClass ''d'' []]
   \<and> mergePackage [aPackage ''p'' [] [aClass ''a'' []], aClass ''c'' []]
        (aPackage ''p'' [] [aClass ''b'' []])
      = [aClass ''c'' [], aPackage ''p'' [] [aClass ''a'' [], aClass ''b'' []]]
   \<and> mergeAll [aClass ''d'' [], aClass ''e'' []] [aClass ''c'' []]
      = [aClass ''c'' [], aClass ''d'' [], aClass ''e'' []]"
  using mergePackage_order[of "[aClass ''c'' []]" "aClass ''d'' []"
          "[aClass ''d'' [], aClass ''e'' []]"]
    mergePackage_order[of "[aPackage ''p'' [] [aClass ''a'' []], aClass ''c'' []]"
          "aPackage ''p'' [] [aClass ''b'' []]" "[]"]
  by (simp add: mergePackage_other withMembers_def)

text \<open>
  The counterexample to C2 as stated: the existing package \<open>p\<close> stands first, before
  the class \<open>c\<close>. After merging a new package \<open>p\<close> the merged package stands last, after
  \<open>c\<close>: it was not replaced in place.
\<close>

theorem mergePackage_in_place_counterexample:
  "mergePackage [aPackage ''p'' [] [aClass ''a'' []], aClass ''c'' []]
      (aPackage ''p'' [] [aClass ''b'' []])
     = [aClass ''c'' [], aPackage ''p'' [] [aClass ''a'' [], aClass ''b'' []]]
   \<and> mergePackage [aPackage ''p'' [] [aClass ''a'' []], aClass ''c'' []]
      (aPackage ''p'' [] [aClass ''b'' []])
     \<noteq> [aPackage ''p'' [] [aClass ''a'' [], aClass ''b'' []], aClass ''c'' []]"
  by (simp add: mergePackage_package mergePackage_other withMembers_def)

text \<open>
  C8, as the code has it: for a list whose names do not collide at any level (pairwise
  different names in the list and, recursively, inside each of its packages), merging
  the list into the result of merging it once gives that result again.
\<close>

theorem mergeAll_idempotent:
  "distinctNames xs \<Longrightarrow> mergeAll xs (mergeAll xs []) = mergeAll xs []"
proof -
  assume a: "distinctNames xs"
  then have "distinct (map name xs)" using distinctNames_unfold[of xs] by blast
  then show ?thesis using a by (simp add: mergeAll_empty_base mergeAll_self)
qed

theorem mergeAll_idempotent_witness:
  "distinctNames [aPackage ''p'' [] [aClass ''a'' [], aMixin ''b'' []], aClass ''c'' []]
   \<and> mergeAll [aPackage ''p'' [] [aClass ''a'' [], aMixin ''b'' []], aClass ''c'' []]
        (mergeAll [aPackage ''p'' [] [aClass ''a'' [], aMixin ''b'' []], aClass ''c'' []] [])
      = mergeAll [aPackage ''p'' [] [aClass ''a'' [], aMixin ''b'' []], aClass ''c'' []] []"
proof -
  have "distinctNames [aClass ''a'' [], aMixin ''b'' []]"
    by (subst distinctNames.simps) simp
  then have d: "distinctNames [aPackage ''p'' [] [aClass ''a'' [], aMixin ''b'' []], aClass ''c'' []]"
    by (subst distinctNames.simps) simp
  show ?thesis using d mergeAll_idempotent[OF d] by simp
qed

text \<open>
  The counterexample to C8 as stated: the list holds one package, so its top-level names
  do not collide, but the package has two members named \<open>a\<close>. Merging the list once
  appends the package as it is; merging it again folds the package into itself, where
  the second \<open>a\<close> replaces the first.
\<close>

theorem mergeAll_idempotent_counterexample:
  "distinct (map name [aPackage ''p'' [] [aClass ''a'' [], aMixin ''a'' []]])
   \<and> mergeAll [aPackage ''p'' [] [aClass ''a'' [], aMixin ''a'' []]] []
       = [aPackage ''p'' [] [aClass ''a'' [], aMixin ''a'' []]]
   \<and> mergeAll [aPackage ''p'' [] [aClass ''a'' [], aMixin ''a'' []]]
        (mergeAll [aPackage ''p'' [] [aClass ''a'' [], aMixin ''a'' []]] [])
       = [aPackage ''p'' [] [aMixin ''a'' []]]
   \<and> mergeAll [aPackage ''p'' [] [aClass ''a'' [], aMixin ''a'' []]]
        (mergeAll [aPackage ''p'' [] [aClass ''a'' [], aMixin ''a'' []]] [])
       \<noteq> mergeAll [aPackage ''p'' [] [aClass ''a'' [], aMixin ''a'' []]] []"
  by (simp add: mergePackage_package mergePackage_other withMembers_def)

text \<open>
  C9: when a new package is merged into a list that holds a package of the same name,
  the result ends with the merged package; every field of it but the member list is the
  existing package's (its imports in particular), its members are the new package's
  members folded into the existing ones, and the imports of the new package do not
  matter: whatever they are, the result is the same.
\<close>

theorem mergePackage_keeps_existing_fields:
  assumes "kind isolated = Package"
    and "find (\<lambda>member. kind member = Package \<and> name member = name isolated) ms = Some existent"
  shows "mergePackage ms isolated = remove1 existent ms @ [last (mergePackage ms isolated)]
    \<and> imports' (last (mergePackage ms isolated)) = imports' existent
    \<and> kind (last (mergePackage ms isolated)) = kind existent
    \<and> id' (last (mergePackage ms isolated)) = id' existent
    \<and> name (last (mergePackage ms isolated)) = name existent
    \<and> isGeneric (last (mergePackage ms isolated)) = isGeneric existent
    \<and> source (last (mergePackage ms isolated)) = source existent
    \<and> parts (last (mergePackage ms isolated)) = parts existent
    \<and> members (last (mergePackage ms isolated)) = mergeAll (members isolated) (members existent)
    \<and> mergePackage ms (withImports isolated anyImports) = mergePackage ms isolated"
  using assms by (simp add: mergePackage_package)

theorem mergePackage_keeps_existing_fields_witness:
  "imports' (last (mergePackage
       [aPackage ''p'' [anImport False ''q.A''] [aClass ''a'' []], aClass ''c'' []]
       (aPackage ''p'' [anImport True ''r''] [aClass ''b'' []])))
     = [anImport False ''q.A'']
   \<and> members (last (mergePackage
       [aPackage ''p'' [anImport False ''q.A''] [aClass ''a'' []], aClass ''c'' []]
       (aPackage ''p'' [anImport True ''r''] [aClass ''b'' []])))
     = [aClass ''a'' [], aClass ''b'' []]
   \<and> mergePackage
       [aPackage ''p'' [anImport False ''q.A''] [aClass ''a'' []], aClass ''c'' []]
       (withImports (aPackage ''p'' [anImport True ''r''] [aClass ''b'' []]) [])
     = mergePackage
       [aPackage ''p'' [anImport False ''q.A''] [aClass ''a'' []], aClass ''c'' []]
       (aPackage ''p'' [anImport True ''r''] [aClass ''b'' []])"
  using mergePackage_keeps_existing_fields
          [of "aPackage ''p'' [anImport True ''r''] [aClass ''b'' []]"
              "[aPackage ''p'' [anImport False ''q.A''] [aClass ''a'' []], aClass ''c'' []]"
              "aPackage ''p'' [anImport False ''q.A''] [aClass ''a'' []]" "[]"]
  by (simp add: mergePackage_other)

section \<open>Claims about resolution\<close>

text \<open>
  C1: \<open>resolve\<close> returns the binding of the name in the local table of the scope when
  there is one, whatever \<open>allowLookup\<close> is; otherwise nothing when \<open>allowLookup\<close> is
  off; otherwise it goes through the included scopes in order and returns the binding in
  the local table of the first one that has a binding there (an included scope is asked for
  its local table only, nothing of its own included scopes or of its container: one level
  deep); when no included scope has one, it returns what the container yields with the same
  flag, or nothing without a container. Spelled out by position: when the included scopes
  are \<open>before @ hit # rest\<close>, no scope of \<open>before\<close> binds the name locally and
  \<open>hit\<close> does, the result is the binding of \<open>hit\<close>; when no included scope binds the
  name locally, the result is the container's.
\<close>

theorem resolve_order:
  "resolve h s n False = contributions (h s) n
   \<and> resolve h s n allowLookup =
     (case contributions (h s) n of
        Some found \<Rightarrow> Some found
      | None \<Rightarrow>
          if \<not> allowLookup then None
          else (case find (\<lambda>included. contributions (h included) n \<noteq> None) (includedScopes (h s)) of
                  Some included \<Rightarrow> contributions (h included) n
                | None \<Rightarrow> (case containerScope s of
                             None \<Rightarrow> None
                           | Some container \<Rightarrow> resolve h container n allowLookup)))
   \<and> (contributions (h s) n = None
        \<and> includedScopes (h s) = before @ hit # rest
        \<and> (\<forall>earlier \<in> set before. contributions (h earlier) n = None)
        \<and> contributions (h hit) n = Some inherited
      \<longrightarrow> resolve h s n True = Some inherited)
   \<and> (contributions (h s) n = None
        \<and> (\<forall>included \<in> set (includedScopes (h s)). contributions (h included) n = None)
      \<longrightarrow> resolve h s n True =
            (case containerScope s of
               None \<Rightarrow> None
             | Some container \<Rightarrow> resolve h container n True))"
proof -
  have eq: "resolve h s n allowLookup =
     (case contributions (h s) n of
        Some found \<Rightarrow> Some found
      | None \<Rightarrow>
          if \<not> allowLookup then None
          else (case find (\<lambda>included. contributions (h included) n \<noteq> None) (includedScopes (h s)) of
                  Some included \<Rightarrow> contributions (h included) n
                | None \<Rightarrow> (case containerScope s of
                             None \<Rightarrow> None
                           | Some container \<Rightarrow> resolve h container n allowLookup)))"
    for allowLookup
    by (subst resolve.simps)
       (auto simp: Let_def resolve_no_lookup firstDefined_find find_None_iff
             split: option.splits dest: find_Some_mem)
  have hit: "resolve h s n True = Some inherited"
    if "contributions (h s) n = None" "includedScopes (h s) = before @ hit # rest"
      "\<forall>earlier \<in> set before. contributions (h earlier) n = None"
      "contributions (h hit) n = Some inherited"
  proof -
    have "find (\<lambda>included. contributions (h included) n \<noteq> None) (before @ hit # rest) = Some hit"
      by (rule find_first_hit) (simp_all add: that)
    then show ?thesis using that by (simp add: eq[of True])
  qed
  have miss: "resolve h s n True =
            (case containerScope s of
               None \<Rightarrow> None
             | Some container \<Rightarrow> resolve h container n True)"
    if "contributions (h s) n = None"
      "\<forall>included \<in> set (includedScopes (h s)). contributions (h included) n = None"
  proof -
    have "find (\<lambda>included. contributions (h included) n \<noteq> None) (includedScopes (h s)) = None"
      by (rule find_no_hit) (simp add: that)
    then show ?thesis using that by (simp add: eq[of True])
  qed
  from eq[of allowLookup] hit miss show ?thesis by (simp add: resolve_no_lookup) 
qed

text \<open>
  C1 on the example scopes: from \<open>lookupHere\<close> the name resolves to the binding of the
  second included scope, not to what the first could reach through its own included scope
  or container, nor to the binding of the third; with lookup off it does not resolve. From
  \<open>lookupOuter\<close> it resolves to the binding of the container.
\<close>

theorem resolve_order_witness:
  "resolve lookupHeap lookupHere ''n'' True = Some (aClass ''second'' [])
   \<and> resolve lookupHeap lookupHere ''n'' False = None
   \<and> resolve lookupHeap lookupOuter ''n'' True = Some (aClass ''top'' [])"
proof -
  have a: "contributions (lookupHeap lookupHere) ''n'' = None"
    and b: "includedScopes (lookupHeap lookupHere) = [lookupFirst] @ lookupSecond # [lookupThird]"
    and c: "\<forall>earlier \<in> set [lookupFirst]. contributions (lookupHeap earlier) ''n'' = None"
    and d: "contributions (lookupHeap lookupSecond) ''n'' = Some (aClass ''second'' [])"
    by (simp_all add: lookupDefs)
  have e: "contributions (lookupHeap lookupOuter) ''n'' = None"
    and f: "\<forall>included \<in> set (includedScopes (lookupHeap lookupOuter)).
              contributions (lookupHeap included) ''n'' = None"
    and g: "containerScope lookupOuter = Some lookupTop"
    and t: "contributions (lookupHeap lookupTop) ''n'' = Some (aClass ''top'' [])"
    by (simp_all add: lookupDefs)
  from resolve_order[of lookupHeap lookupHere "''n''" True "[lookupFirst]" lookupSecond "[lookupThird]"
             "aClass ''second'' []"] a b c d
  have one: "resolve lookupHeap lookupHere ''n'' True = Some (aClass ''second'' [])"
    and two: "resolve lookupHeap lookupHere ''n'' False = None"
    by simp_all
  from resolve_order[of lookupHeap lookupTop "''n''" True] t
  have top: "resolve lookupHeap lookupTop ''n'' True = Some (aClass ''top'' [])" by simp
  from resolve_order[of lookupHeap lookupOuter "''n''" True] e f
  have "resolve lookupHeap lookupOuter ''n'' True =
          (case containerScope lookupOuter of
             None \<Rightarrow> None
           | Some container \<Rightarrow> resolve lookupHeap container ''n'' True)"
    by blast
  with g top have three: "resolve lookupHeap lookupOuter ''n'' True = Some (aClass ''top'' [])"
    by simp
  from one two three show ?thesis by simp
qed

text \<open>
  C5: \<open>resolveQualified\<close> splits the name at its first separator; when the head does not
  resolve (by \<open>resolve\<close>, with the flag given) it fails with the linking error naming
  the head; when the rest is empty it returns the node the head resolved to; otherwise
  it continues with the rest in the scope of that node with \<open>allowLookup\<close> off, which
  follows own bindings only (\<open>ownMembersPath\<close>): neither included scopes nor containers
  are reachable past the head.
\<close>

theorem resolveQualified_steps:
  "resolveQualified st s q allowLookup =
     (case divideOn CHR ''.'' q of
        (start, rest) \<Rightarrow>
          (case resolve (heap st) s start allowLookup of
             None \<Rightarrow> Inl (CouldNotResolve start)
           | Some root \<Rightarrow>
               if rest = [] then Inr root
               else (case scopeOf st (id' root) of
                       None \<Rightarrow> Inl TypeError
                     | Some rootScope \<Rightarrow> resolveQualified st rootScope rest False)))
   \<and> resolveQualified st s q False = ownMembersPath st s q"
proof -
  have "resolveQualified st s q allowLookup =
     (case divideOn CHR ''.'' q of
        (start, rest) \<Rightarrow>
          (case resolve (heap st) s start allowLookup of
             None \<Rightarrow> Inl (CouldNotResolve start)
           | Some root \<Rightarrow>
               if rest = [] then Inr root
               else (case scopeOf st (id' root) of
                       None \<Rightarrow> Inl TypeError
                     | Some rootScope \<Rightarrow> resolveQualified st rootScope rest False)))"
    by (subst resolveQualified.simps) (simp split: prod.splits option.splits)
  then show ?thesis by (simp add: resolveQualified_own)
qed

section \<open>Claims about scope assignment\<close>

text \<open>
  C4: the first pass. In a tree with pairwise different ids whose \<^verbatim>\<open>parent()\<close> caches
  are filled, after the first callback of \<^verbatim>\<open>assignScopes\<close> has run over the tree, every
  node has a scope of its own, with no included scope yet. For a Reference whose parent is a
  Class or a Mixin, the container of that scope is the scope of the grandparent (the parent
  of the Class or Mixin), and that is not the scope of the Class or Mixin itself. For every
  other node with a parent the container is the scope of the parent; the scope of the root
  has no container.
\<close>

theorem first_pass_containers:
  assumes d: "distinct (map id' (nodes root))"
    and pc: "parentsCached root st0"
    and run: "forEach scopeSkeleton root st0 = Inr st1"
    and m: "(n, po) \<in> set (traversal None root)"
  shows "\<exists>s. scopeOf st1 (id' n) = Some s \<and> owner s = OfNode (id' n)
           \<and> includedScopes (heap st1 s) = []
           \<and> (case po of
                 None \<Rightarrow> containerScope s = None
               | Some p \<Rightarrow>
                   (\<exists>sp. scopeOf st1 (id' p) = Some sp
                      \<and> (if kind n = Reference \<and> (kind p = Class \<or> kind p = Mixin)
                         then (\<exists>g sg. (p, Some g) \<in> set (traversal None root)
                                 \<and> scopeOf st1 (id' g) = Some sg
                                 \<and> containerScope s = Some sg \<and> sg \<noteq> sp)
                         else containerScope s = Some sp)))"
proof -
  let ?T = "traversal None root"
  from skeleton_pass[OF d pc run] have sb: "skeletonBuilt ?T st1" .
  then have sa: "scopesAssigned root st1" by (rule skeletonBuilt_assigned)
  from sb m obtain c where
    s: "scopeOf st1 (id' n) = Some (LocalScope (OfNode (id' n)) c)"
    and cr: "containerRule st1 n po c"
    and inc: "includedScopes (heap st1 (LocalScope (OfNode (id' n)) c)) = []"
    by (fastforce simp: skeletonBuilt_def)
  have pst: "parentOf st1 = parentOf st0"
    using forEach_scopeSkeleton_sameCaches[OF run] by (simp add: sameCaches_def)
  have rule: "(case po of
                 None \<Rightarrow> c = None
               | Some p \<Rightarrow>
                   (\<exists>sp. scopeOf st1 (id' p) = Some sp
                      \<and> (if kind n = Reference \<and> (kind p = Class \<or> kind p = Mixin)
                         then (\<exists>g sg. (p, Some g) \<in> set ?T
                                 \<and> scopeOf st1 (id' g) = Some sg
                                 \<and> c = Some sg \<and> sg \<noteq> sp)
                         else c = Some sp)))"
  proof (cases po)
    case None
    with cr show ?thesis by (simp add: containerRule_def)
  next
    case (Some p)
    have pn: "p \<in> set (nodes root)" using m Some parent_in_nodes by blast
    from assigned_scope[OF sa pn] obtain cp where
      sp: "scopeOf st1 (id' p) = Some (LocalScope (OfNode (id' p)) cp)" by blast
    show ?thesis
    proof (cases "kind n = Reference \<and> (kind p = Class \<or> kind p = Mixin)")
      case True
      with cr Some obtain g where g: "parentOf st1 (id' p) = Some g" and cg: "c = scopeOf st1 (id' g)"
        by (auto simp: containerRule_def)
      from pn obtain z where z: "z \<in> set ?T" "fst z = p" by (auto simp: nodes_def)
      with pc have "parentOf st0 (id' p) = snd z" by (auto simp: parentsCached_def)
      with g pst have "snd z = Some g" by simp
      with z have pg: "(p, Some g) \<in> set ?T" by (metis prod.collapse)
      then obtain before rest where T: "?T = before @ (p, Some g) # rest"
        by (meson split_list)
      from traversal_parent_before[OF T] obtain w where w: "w \<in> set before" "fst w = g" by auto
      have gn: "g \<in> set (nodes root)" using pg by (rule parent_in_nodes)
      have dT: "distinct (map (\<lambda>x. id' (fst x)) ?T)"
        using d by (simp add: nodes_def comp_def)
      have "id' g \<noteq> id' p"
        using distinct_split_notin[of "\<lambda>x. id' (fst x)" before "(p, Some g)" rest w] dT w
        unfolding T by auto
      moreover from assigned_scope[OF sa gn] obtain cg' where
        sg: "scopeOf st1 (id' g) = Some (LocalScope (OfNode (id' g)) cg')" by blast
      ultimately show ?thesis using True Some sp pg cg by auto
    next
      case False
      with cr Some have "c = scopeOf st1 (id' p)" by (auto simp: containerRule_def)
      with False Some sp show ?thesis by auto
    qed
  qed
  show ?thesis
    using s inc rule by (cases po) auto
qed

text \<open>
  C4 on the example environment: the container of the scope of the superclass Reference
  of the class \<open>C\<close> is the scope of the package \<open>p\<close>, not the scope of \<open>C\<close>.
\<close>

theorem first_pass_containers_witness:
  "\<exists>st0 st1 s sg sp.
      forEach (fillCaches exampleRoot) exampleRoot emptyState = Inr st0
    \<and> forEach scopeSkeleton exampleRoot st0 = Inr st1
    \<and> scopeOf st1 (id' exampleReference) = Some s
    \<and> scopeOf st1 (id' examplePackage) = Some sg
    \<and> scopeOf st1 (id' exampleClass) = Some sp
    \<and> containerScope s = Some sg \<and> sg \<noteq> sp"
proof -
  from exampleRoot_skeleton obtain st0 st1 where
    a: "forEach (fillCaches exampleRoot) exampleRoot emptyState = Inr st0"
    and b: "forEach scopeSkeleton exampleRoot st0 = Inr st1"
    by blast
  have m: "(exampleReference, Some exampleClass) \<in> set (traversal None exampleRoot)"
    by (simp add: traversal_unfold children_def exampleDefs)
  from first_pass_containers[OF exampleRoot_distinct exampleRoot_cached[OF a] b m]
  obtain s sp g sg where
    s: "scopeOf st1 (id' exampleReference) = Some s"
    and sp: "scopeOf st1 (id' exampleClass) = Some sp"
    and g: "(exampleClass, Some g) \<in> set (traversal None exampleRoot)"
    and sg: "scopeOf st1 (id' g) = Some sg" "containerScope s = Some sg" "sg \<noteq> sp"
    by (auto simp: exampleReference_def exampleClass_def)
  from g have "g = examplePackage"
    by (simp add: traversal_unfold children_def exampleDefs)
  with a b s sp sg show ?thesis by blast
qed

text \<open>
  C3: import precedence. After \<^verbatim>\<open>assignScopes\<close> has succeeded, the scope of a package
  with at least one import includes, in this order, its import scope and then the scopes of
  the targets of its generic imports in declaration order, and nothing else; the import
  scope holds the entities of the simple imports under their names. The entities and the
  target scopes are the ones found when the second pass visits the package. Resolution from
  the scope of the package therefore yields the package's own binding of a name when there
  is one, otherwise the binding of a simple import, otherwise the first binding among the
  local tables of the generic imports' targets, otherwise what the container yields. In
  particular a name that the package does not bind itself and a simple import binds resolves
  to the target of the simple import, whatever the generic imports expose.
\<close>

theorem import_precedence:
  assumes d: "distinct (map id' (nodes root))"
    and pc: "parentsCached root st0"
    and run: "assignScopes hierarchy root st0 = Inr st"
    and P: "(package, po) \<in> set (traversal None root)" "kind package = Package"
           "imports' package \<noteq> []"
  shows "\<exists>packageScope entities genericScopes st1 visited.
      scopeOf st (id' package) = Some packageScope
    \<and> forEach scopeSkeleton root st0 = Inr st1
    \<and> visitedAt hierarchy root st1 package visited
    \<and> importsResolved visited package entities genericScopes
    \<and> includedScopes (heap st packageScope) = importScopeOf package # genericScopes
    \<and> (\<forall>n. contributions (heap st (importScopeOf package)) n
             = map_of (rev (entityBindings entities)) n)
    \<and> (\<forall>n. resolve (heap st) packageScope n True =
         (case contributions (heap st packageScope) n of
            Some found \<Rightarrow> Some found
          | None \<Rightarrow>
              (case map_of (rev (entityBindings entities)) n of
                 Some imported \<Rightarrow> Some imported
               | None \<Rightarrow>
                   (case firstDefined (\<lambda>g. contributions (heap st g) n) genericScopes of
                      Some exposed \<Rightarrow> Some exposed
                    | None \<Rightarrow>
                        (case containerScope packageScope of
                           None \<Rightarrow> None
                         | Some container \<Rightarrow> resolve (heap st) container n True)))))
    \<and> (\<forall>n target.
          contributions (heap st packageScope) n = None
          \<and> map_of (rev (entityBindings entities)) n = Some target
          \<longrightarrow> resolve (heap st) packageScope n True = Some target)"
proof -
  from skeleton_from_assign[OF d pc run] obtain st1 where
    a: "forEach scopeSkeleton root st0 = Inr st1"
    and b: "forEach (crossLinks hierarchy root) root st1 = Inr st"
    and sb: "skeletonBuilt (traversal None root) st1"
    and sa: "scopesAssigned root st1"
    and so: "scopeOf st = scopeOf st1"
    by blast
  from sb P(1) obtain c where
    sP: "scopeOf st1 (id' package) = Some (LocalScope (OfNode (id' package)) c)"
    and inc0: "includedScopes (heap st1 (LocalScope (OfNode (id' package)) c)) = []"
    by (fastforce simp: skeletonBuilt_def)
  let ?sP = "LocalScope (OfNode (id' package)) c"
  from imports_pass[OF d sa b P sP inc0] obtain entities gs visited where
    va: "visitedAt hierarchy root st1 package visited"
    and ir: "importsResolved visited package entities gs"
    and inc: "includedScopes (heap st ?sP) = importScopeOf package # gs"
    and con: "contributions (heap st (importScopeOf package))
             = contributions (register (entityBindings entities) emptyFields)"
    by blast
  have tab: "contributions (heap st (importScopeOf package)) n
             = map_of (rev (entityBindings entities)) n" for n
    unfolding con by (simp add: register_contributions split: option.splits)
  have res: "resolve (heap st) ?sP n True =
         (case contributions (heap st ?sP) n of
            Some found \<Rightarrow> Some found
          | None \<Rightarrow>
              (case map_of (rev (entityBindings entities)) n of
                 Some imported \<Rightarrow> Some imported
               | None \<Rightarrow>
                   (case firstDefined (\<lambda>g. contributions (heap st g) n) gs of
                      Some exposed \<Rightarrow> Some exposed
                    | None \<Rightarrow>
                        (case containerScope ?sP of
                           None \<Rightarrow> None
                         | Some container \<Rightarrow> resolve (heap st) container n True))))" for n
    by (subst resolve.simps)
       (simp add: Let_def inc resolve_no_lookup tab split: option.splits)
  have part: "resolve (heap st) ?sP n True = Some target"
    if "contributions (heap st ?sP) n = None \<and> map_of (rev (entityBindings entities)) n = Some target"
    for n target
    using that by (simp add: res)
  show ?thesis
    using sP so a va ir inc tab res part
    by (intro exI[of _ ?sP] exI[of _ entities] exI[of _ gs] exI[of _ st1] exI[of _ visited]) simp
qed

text \<open>
  C3 on the example environment: the package \<open>p\<close> imports the class \<open>q.A\<close> and,
  generically, the package \<open>r\<close>, which has a mixin \<open>A\<close>; from the scope of \<open>p\<close> the name
  \<open>A\<close> resolves to the class of \<open>q\<close>.
\<close>

theorem import_precedence_witness:
  "\<exists>st0 st packageScope genericScopes.
      forEach (fillCaches exampleRoot) exampleRoot emptyState = Inr st0
    \<and> assignScopes noAncestors exampleRoot st0 = Inr st
    \<and> scopeOf st (id' examplePackage) = Some packageScope
    \<and> includedScopes (heap st packageScope) = importScopeOf examplePackage # genericScopes
    \<and> length genericScopes = 1
    \<and> resolve (heap st) packageScope ''A'' True = Some exampleImported"
proof -
  from exampleRoot_assigned obtain st0 st where
    a: "forEach (fillCaches exampleRoot) exampleRoot emptyState = Inr st0"
    and b: "assignScopes noAncestors exampleRoot st0 = Inr st"
    and r: "resolve (heap st) (LocalScope (OfNode 9) (Some (LocalScope (OfNode 1) None))) ''A'' True
           = Some exampleImported"
    and s: "scopeOf st 9 = Some (LocalScope (OfNode 9) (Some (LocalScope (OfNode 1) None)))"
    by blast
  have m: "(examplePackage, Some exampleRoot) \<in> set (traversal None exampleRoot)"
    by (simp add: traversal_unfold children_def exampleDefs)
  have k: "kind examplePackage = Package" "imports' examplePackage \<noteq> []"
    by (simp_all add: examplePackage_def)
  from import_precedence[OF exampleRoot_distinct exampleRoot_cached[OF a] b m k]
  obtain packageScope entities genericScopes visited where
    ps: "scopeOf st (id' examplePackage) = Some packageScope"
    and ir: "importsResolved visited examplePackage entities genericScopes"
    and inc: "includedScopes (heap st packageScope) = importScopeOf examplePackage # genericScopes"
    by blast
  from ir have len: "length genericScopes = 1"
    by (auto simp: importsResolved_def examplePackage_def bindE_Inr_iff)
  from ps s have "packageScope = LocalScope (OfNode 9) (Some (LocalScope (OfNode 1) None))"
    by (simp add: examplePackage_def)
  with a b ps inc len r show ?thesis by blast
qed

text \<open>
  C10: registration overwrites. Registering one contribution binds its name to its node,
  whatever the table held; after a batch the table holds, for each name of the batch, the
  node of the last contribution listed for it, and its earlier binding for any other name.
  When an Entity and a Field or Parameter with the same (non-empty) name are children of one
  node, then after the first pass the table of the parent's scope binds the name to an
  Entity child of that name, and after the second pass, that is after \<^verbatim>\<open>assignScopes\<close>,
  the same table binds it to a Field or Parameter child of that name instead: the Entity is
  shadowed, and the Field or Parameter is what resolution from the parent's scope yields,
  with or without lookup.
\<close>

theorem registration_shadows:
  "contributions (register [(n, v)] this) n = Some v
   \<and> contributions (register cs this) n
       = (case map_of (rev cs) n of Some w \<Rightarrow> Some w | None \<Rightarrow> contributions this n)
   \<and> (distinct (map id' (nodes root)) \<and> parentsCached root st0
        \<and> assignScopes hierarchy root st0 = Inr st
        \<and> (e, Some p) \<in> set (traversal None root) \<and> isEntity e \<and> name e = Some k
        \<and> (f, Some p) \<in> set (traversal None root) \<and> (kind f = Field \<or> kind f = Parameter)
        \<and> name f = Some k \<and> k \<noteq> []
      \<longrightarrow> (\<exists>st1 sp bound g.
               forEach scopeSkeleton root st0 = Inr st1
             \<and> forEach (crossLinks hierarchy root) root st1 = Inr st
             \<and> scopeOf st1 (id' p) = Some sp \<and> scopeOf st (id' p) = Some sp
             \<and> (bound, Some p) \<in> set (traversal None root)
             \<and> isEntity bound \<and> name bound = Some k
             \<and> contributions (heap st1 sp) k = Some bound
             \<and> (g, Some p) \<in> set (traversal None root)
             \<and> (kind g = Field \<or> kind g = Parameter) \<and> name g = Some k
             \<and> g \<noteq> e \<and> g \<noteq> bound
             \<and> contributions (heap st sp) k = Some g
             \<and> resolve (heap st) sp k True = Some g
             \<and> resolve (heap st) sp k False = Some g))"
proof -
  have a: "contributions (register [(n, v)] this) n = Some v"
    by (simp add: register_contributions)
  have b: "contributions (register cs this) n
       = (case map_of (rev cs) n of Some w \<Rightarrow> Some w | None \<Rightarrow> contributions this n)"
    by (rule register_contributions)
  have c: "\<exists>st1 sp bound g.
               forEach scopeSkeleton root st0 = Inr st1
             \<and> forEach (crossLinks hierarchy root) root st1 = Inr st
             \<and> scopeOf st1 (id' p) = Some sp \<and> scopeOf st (id' p) = Some sp
             \<and> (bound, Some p) \<in> set (traversal None root)
             \<and> isEntity bound \<and> name bound = Some k
             \<and> contributions (heap st1 sp) k = Some bound
             \<and> (g, Some p) \<in> set (traversal None root)
             \<and> (kind g = Field \<or> kind g = Parameter) \<and> name g = Some k
             \<and> g \<noteq> e \<and> g \<noteq> bound
             \<and> contributions (heap st sp) k = Some g
             \<and> resolve (heap st) sp k True = Some g
             \<and> resolve (heap st) sp k False = Some g"
    if d: "distinct (map id' (nodes root))" and pc: "parentsCached root st0"
      and run: "assignScopes hierarchy root st0 = Inr st"
      and e: "(e, Some p) \<in> set (traversal None root)" "isEntity e" "name e = Some k"
      and f: "(f, Some p) \<in> set (traversal None root)" "kind f = Field \<or> kind f = Parameter"
             "name f = Some k" "k \<noteq> []"
  proof -
    from skeleton_from_assign[OF d pc run] obtain st1 where
      r1: "forEach scopeSkeleton root st0 = Inr st1"
      and r2: "forEach (crossLinks hierarchy root) root st1 = Inr st"
      and sa: "scopesAssigned root st1"
      and so: "scopeOf st = scopeOf st1"
      by blast
    have ek: "(k, e) \<in> set (scopeContribution e)"
      using e(2,3) f(4) by (auto simp: scopeContribution_def)
    from entity_pass[OF d r1 e(1,2) ek] obtain bound sp where
      bd: "(bound, Some p) \<in> set (traversal None root)" "isEntity bound"
          "(k, bound) \<in> set (scopeContribution bound)"
      and sp: "scopeOf st1 (id' p) = Some sp"
      and b1: "contributions (heap st1 sp) k = Some bound"
      by blast
    from scopeContribution_key[OF bd(3)] have bk: "name bound = Some k" by simp
    have fe: "\<not> isEntity f" using f(2) by (auto simp: isEntity_def)
    have fk: "(k, f) \<in> set (scopeContribution f)"
      using f(2,3,4) by (auto simp: scopeContribution_def)
    from shadow_pass[OF d sa r2 sp f(1) fe fk] obtain g where
      g: "(g, Some p) \<in> set (traversal None root)" "\<not> isEntity g"
         "(k, g) \<in> set (scopeContribution g)"
         "contributions (heap st sp) k = Some g"
      by blast
    from g(3) have "scopeContribution g \<noteq> []" by auto
    then have "isEntity g \<or> kind g = Field \<or> kind g = Parameter"
      unfolding scopeContribution_def by (simp split: if_splits)
    with g(2) have gk1: "kind g = Field \<or> kind g = Parameter" by simp
    from scopeContribution_key[OF g(3)] have gk2: "name g = Some k" by simp
    from g(2) e(2) bd(2) have ne: "g \<noteq> e" "g \<noteq> bound" by auto
    have res: "resolve (heap st) sp k allow = Some g" for allow
      by (subst resolve.simps) (simp add: Let_def g(4))
    have sp2: "scopeOf st (id' p) = Some sp" using sp so by simp
    show ?thesis
      using r1 r2 sp sp2 bd(1,2) bk b1 g(1) gk1 gk2 ne g(4) res[of True] res[of False]
      by blast
  qed
  from a b c show ?thesis by blast
qed

text \<open>
  C10 on the example environment: the describe \<open>d\<close> has a test and a field that are both
  called \<open>t\<close>; after the first pass the name is bound to the test, in the end it resolves
  to the field. In one batch the last contribution wins.
\<close>

theorem registration_shadows_witness:
  "contributions (register [(''t'', exampleTest), (''t'', exampleField)] emptyFields) ''t''
     = Some exampleField
   \<and> (\<exists>st0 st1 st sp.
        forEach (fillCaches exampleRoot) exampleRoot emptyState = Inr st0
      \<and> forEach scopeSkeleton exampleRoot st0 = Inr st1
      \<and> assignScopes noAncestors exampleRoot st0 = Inr st
      \<and> scopeOf st (id' exampleDescribe) = Some sp
      \<and> contributions (heap st1 sp) ''t'' = Some exampleTest
      \<and> resolve (heap st) sp ''t'' True = Some exampleField)"
proof -
  from exampleRoot_assigned obtain st0 st where
    a: "forEach (fillCaches exampleRoot) exampleRoot emptyState = Inr st0"
    and b: "assignScopes noAncestors exampleRoot st0 = Inr st"
    by blast
  have e: "(exampleTest, Some exampleDescribe) \<in> set (traversal None exampleRoot)"
    by (simp add: traversal_unfold children_def exampleDefs)
  have f: "(exampleField, Some exampleDescribe) \<in> set (traversal None exampleRoot)"
    by (simp add: traversal_unfold children_def exampleDefs)
  have k: "isEntity exampleTest" "name exampleTest = Some ''t''"
    "kind exampleField = Field \<or> kind exampleField = Parameter" "name exampleField = Some ''t''"
    by (simp_all add: isEntity_def exampleTest_def exampleField_def)
  from registration_shadows[of "''t''" exampleField emptyFields "[(''t'', exampleTest), (''t'', exampleField)]"
          exampleRoot st0 noAncestors st exampleTest exampleDescribe "''t''" exampleField]
    exampleRoot_distinct exampleRoot_cached[OF a] b e f k
  obtain st1 sp bound g where
    r1: "contributions (register [(''t'', exampleTest), (''t'', exampleField)] emptyFields) ''t''
           = Some exampleField"
    and p1: "forEach scopeSkeleton exampleRoot st0 = Inr st1"
    and sp: "scopeOf st (id' exampleDescribe) = Some sp"
    and bd: "(bound, Some exampleDescribe) \<in> set (traversal None exampleRoot)"
       "isEntity bound" "contributions (heap st1 sp) ''t'' = Some bound"
    and g: "(g, Some exampleDescribe) \<in> set (traversal None exampleRoot)"
       "kind g = Field \<or> kind g = Parameter"
       "resolve (heap st) sp ''t'' True = Some g"
    by auto
  from g(1,2) have "g = exampleField"
    by (auto simp: traversal_unfold children_def exampleDefs)
  moreover from bd(1,2) have "bound = exampleTest"
    by (auto simp: traversal_unfold children_def exampleDefs isEntity_def)
  ultimately show ?thesis using a b p1 sp bd(3) g(3) r1 by blast
qed

section \<open>Claims about the link operation\<close>

text \<open>
  C6: validation. The caches are always filled. When scope assignment succeeds, \<^verbatim>\<open>link\<close>
  fails exactly when some Reference of the new environment does not resolve its name
  starting from its own scope; the failure is the one of the first such Reference in
  visiting order and carries its name and its source, and no environment is returned. When
  every Reference resolves, the environment is returned together with the state scope
  assignment left. A Reference resolves when its scope slot is filled and the head of its
  name (the whole name when it is not qualified) resolves by \<open>resolve\<close> from that scope,
  with lookup, and the rest of the name, if any, leads from the node found through own
  bindings to a node. (\<^verbatim>\<open>target()\<close> is modelled from the spec.)
\<close>

theorem link_validation:
  "(\<exists>st1. forEach (fillCaches (newEnvironment uuid newPackages baseEnvironment))
            (newEnvironment uuid newPackages baseEnvironment) emptyState = Inr st1
     \<and> link uuid hierarchy newPackages baseEnvironment =
         (case assignScopes hierarchy (newEnvironment uuid newPackages baseEnvironment) st1 of
            Inl failure \<Rightarrow> Inl failure
          | Inr st2 \<Rightarrow>
              (case find (\<lambda>r. kind r = Reference \<and> \<not> resolvesFromOwnScope st2 r)
                      (nodes (newEnvironment uuid newPackages baseEnvironment)) of
                 Some r \<Rightarrow> Inl (UnlinkedReference (name r) (source r))
               | None \<Rightarrow> Inr (newEnvironment uuid newPackages baseEnvironment, st2))))
   \<and> resolvesFromOwnScope st reference =
       (\<exists>referenceScope qualifiedName.
          scopeOf st (id' reference) = Some referenceScope
        \<and> name reference = Some qualifiedName
        \<and> (case divideOn CHR ''.'' qualifiedName of
             (start, rest) \<Rightarrow>
               (case resolve (heap st) referenceScope start True of
                  None \<Rightarrow> False
                | Some root \<Rightarrow>
                    rest = []
                    \<or> (\<exists>rootScope found. scopeOf st (id' root) = Some rootScope
                          \<and> ownMembersPath st rootScope rest = Inr found))))"
proof -
  let ?e = "newEnvironment uuid newPackages baseEnvironment"
  from fillCaches_total[of ?e "traversal None ?e" emptyState] obtain st1 where
    a: "forEach (fillCaches ?e) ?e emptyState = Inr st1"
    by (auto simp: forEach_def)
  have "link uuid hierarchy newPackages baseEnvironment =
         (case assignScopes hierarchy ?e st1 of
            Inl failure \<Rightarrow> Inl failure
          | Inr st2 \<Rightarrow>
              (case find (\<lambda>r. kind r = Reference \<and> \<not> resolvesFromOwnScope st2 r) (nodes ?e) of
                 Some r \<Rightarrow> Inl (UnlinkedReference (name r) (source r))
               | None \<Rightarrow> Inr (?e, st2)))"
  proof (cases "assignScopes hierarchy ?e st1")
    case (Inl failure)
    then show ?thesis by (simp add: link_def Let_def a)
  next
    case (Inr st2)
    from assignScopes_defined[OF Inr]
    have "\<forall>x \<in> set (traversal None ?e). scopeOf st2 (id' (fst x)) \<noteq> None"
      by (simp add: nodes_def)
    from validate_fold[OF this]
    have v: "forEach validate ?e st2 =
       (case find (\<lambda>r. kind r = Reference \<and> \<not> resolvesFromOwnScope st2 r) (nodes ?e) of
          Some r \<Rightarrow> Inl (UnlinkedReference (name r) (source r))
        | None \<Rightarrow> Inr st2)"
      by (simp add: forEach_def nodes_def)
    show ?thesis
      by (simp add: link_def Let_def a Inr v split: option.splits)
  qed
  with a have "\<exists>st1. forEach (fillCaches ?e) ?e emptyState = Inr st1
     \<and> link uuid hierarchy newPackages baseEnvironment =
         (case assignScopes hierarchy ?e st1 of
            Inl failure \<Rightarrow> Inl failure
          | Inr st2 \<Rightarrow>
              (case find (\<lambda>r. kind r = Reference \<and> \<not> resolvesFromOwnScope st2 r) (nodes ?e) of
                 Some r \<Rightarrow> Inl (UnlinkedReference (name r) (source r))
               | None \<Rightarrow> Inr (?e, st2)))"
    by blast
  then show ?thesis using resolvesFromOwnScope_steps[of st reference] by blast
qed

text \<open>
  C6 on three inputs. With an import of \<open>q.A\<close> and a Reference to \<open>wollok.lang.Object\<close>
  the link succeeds and both References resolve from their own scopes. With a Reference to
  a name that nothing binds, and with one to \<open>wollok.lang.Missing\<close>, whose last segment
  nothing binds, the link fails with the name and the source of the Reference.
\<close>

theorem link_validation_witness:
  "(case link (\<lambda>k. k) noAncestors qualifiedPackages None of
      Inl failure \<Rightarrow> False
    | Inr (env, st) \<Rightarrow>
        map name (filter (\<lambda>r. kind r = Reference) (nodes env))
          = [Some ''q.A'', Some ''wollok.lang.Object'']
        \<and> list_all (resolvesFromOwnScope st) (filter (\<lambda>r. kind r = Reference) (nodes env)))
   \<and> link (\<lambda>k. k) noAncestors unlinkedPackages None
       = Inl (UnlinkedReference (Some ''Missing'') ''p.wlk:1'')
   \<and> link (\<lambda>k. k) noAncestors danglingPackages None
       = Inl (UnlinkedReference (Some ''wollok.lang.Missing'') ''p.wlk:1'')"
proof -
  from qualified_run obtain env st where
    l: "link (\<lambda>k. k) noAncestors qualifiedPackages None = Inr (env, st)"
    and e: "env = Node Environment 1 None False [] []
            [Node Package 2 (Some ''wollok'') False [] []
               [Node Package 3 (Some ''lang'') False [] []
                  [Node Class 4 (Some ''Object'') False [] [] [] []] [],
                Node Package 5 (Some ''lib'') False [] [] [] []] [],
             Node Package 6 (Some ''q'') False [] []
               [Node Class 7 (Some ''A'') False [] [] [] []] [],
             Node Package 8 (Some ''p'') False []
               [Node Import 9 None False [] [] []
                  [Node Reference 10 (Some ''q.A'') False [] [] [] []]]
               [Node Class 11 (Some ''C'') False [] [] []
                  [Node Reference 12 (Some ''wollok.lang.Object'') False ''p.wlk:1'' [] [] []]] []]
            []"
    by blast
  have names: "map name (filter (\<lambda>r. kind r = Reference) (nodes env))
           = [Some ''q.A'', Some ''wollok.lang.Object'']"
    unfolding e by (simp add: nodes_def traversal_unfold children_def)
  from link_validation[of "\<lambda>k. k" qualifiedPackages None noAncestors] obtain st1 where
    r: "link (\<lambda>k. k) noAncestors qualifiedPackages None =
         (case assignScopes noAncestors (newEnvironment (\<lambda>k. k) qualifiedPackages None) st1 of
            Inl failure \<Rightarrow> Inl failure
          | Inr st2 \<Rightarrow>
              (case find (\<lambda>r. kind r = Reference \<and> \<not> resolvesFromOwnScope st2 r)
                      (nodes (newEnvironment (\<lambda>k. k) qualifiedPackages None)) of
                 Some r \<Rightarrow> Inl (UnlinkedReference (name r) (source r))
               | None \<Rightarrow> Inr (newEnvironment (\<lambda>k. k) qualifiedPackages None, st2)))"
    by blast
  from l r have "find (\<lambda>r. kind r = Reference \<and> \<not> resolvesFromOwnScope st r) (nodes env) = None"
    by (auto split: sum.splits option.splits)
  then have "list_all (resolvesFromOwnScope st) (filter (\<lambda>r. kind r = Reference) (nodes env))"
    by (auto simp: find_None_iff list_all_iff)
  with names have "case Inr (env, st) :: error + node \<times> linkState of
      Inl failure \<Rightarrow> False
    | Inr (env, st) \<Rightarrow>
        map name (filter (\<lambda>r. kind r = Reference) (nodes env))
          = [Some ''q.A'', Some ''wollok.lang.Object'']
        \<and> list_all (resolvesFromOwnScope st) (filter (\<lambda>r. kind r = Reference) (nodes env))"
    by simp
  then show ?thesis unfolding l[symmetric] using unlinked_run dangling_run by simp
qed

text \<open>
  C7: identities. Provided the generator never repeats a value, after a successful link
  the result is an Environment, every node of it (the Environment included) carries an id
  made by a call of the generator that the transformation issued, the ids of the nodes are
  pairwise different, looking the id of a node up returns that node, and looking up an id
  that no node carries returns the failure \<open>MissingNode\<close>. (The transformation and
  \<^verbatim>\<open>getNodeById\<close> are modelled from the spec.)
\<close>

theorem link_identities:
  assumes inj: "inj uuid"
    and l: "link uuid hierarchy newPackages baseEnvironment = Inr (env, st)"
  shows "kind env = Environment \<and> env \<in> set (nodes env)
       \<and> distinct (map id' (nodes env))
       \<and> (\<forall>n \<in> set (nodes env). \<exists>k. id' n = uuid k \<and> 0 < k)
       \<and> (\<forall>n \<in> set (nodes env). getNodeById st (id' n) = Inr n)
       \<and> (\<forall>i. i \<notin> id' ` set (nodes env) \<longrightarrow> getNodeById st i = Inl (MissingNode i))"
proof -
  from link_parts[OF l] obtain st1 where
    e: "env = newEnvironment uuid newPackages baseEnvironment"
    and a: "forEach (fillCaches env) env emptyState = Inr st1"
    and b: "assignScopes hierarchy env st1 = Inr st"
    by blast
  have d: "distinct (map id' (nodes env))"
    unfolding e using inj by (rule newEnvironment_distinct)
  from newEnvironment_ids[of uuid newPackages baseEnvironment] obtain k' where
    ids: "map id' (nodes env) = map uuid [1..<k']" unfolding e by blast
  have fresh: "\<exists>k. id' n = uuid k \<and> 0 < k" if "n \<in> set (nodes env)" for n
  proof -
    from that have "id' n \<in> set (map id' (nodes env))" by simp
    then have "id' n \<in> set (map uuid [1..<k'])" unfolding ids .
    then show ?thesis by auto
  qed
  have same: "nodeById st = nodeById st1"
    using assignScopes_sameCaches[OF b] by (simp add: sameCaches_def)
  from fillCaches_filled[OF d a]
  have f1: "\<forall>x \<in> set (traversal None env). nodeById st1 (id' (fst x)) = Some (fst x)"
    and f2: "\<forall>i. i \<notin> id' ` set (nodes env) \<longrightarrow> nodeById st1 i = None"
    by blast+
  have g1: "\<forall>n \<in> set (nodes env). getNodeById st (id' n) = Inr n"
    using f1 same unfolding nodes_def by (auto simp: getNodeById_def)
  have g2: "\<forall>i. i \<notin> id' ` set (nodes env) \<longrightarrow> getNodeById st i = Inl (MissingNode i)"
    using f2 same by (auto simp: getNodeById_def)
  show ?thesis
    using d fresh g1 g2 nodes_root[of env] newEnvironment_kind[of uuid newPackages baseEnvironment]
    unfolding e[symmetric] by blast
qed

text \<open>
  C7 on an input: the ids are the numbers from 1 on, the Environment is found under 1, the
  package \<open>lib\<close> under 5, and nothing under 99.
\<close>

theorem link_identities_witness:
  "\<exists>env st. link (\<lambda>k. k) noAncestors linkedPackages None = Inr (env, st)
      \<and> kind env = Environment \<and> id' env = 1
      \<and> distinct (map id' (nodes env))
      \<and> getNodeById st 1 = Inr env
      \<and> getNodeById st 5 = Inr (Node Package 5 (Some ''lib'') False [] [] [] [])
      \<and> getNodeById st 99 = Inl (MissingNode 99)"
proof -
  from linked_run obtain env st where
    l: "link (\<lambda>k. k) noAncestors linkedPackages None = Inr (env, st)"
    and e: "env = Node Environment 1 None False [] []
            [Node Package 2 (Some ''wollok'') False [] []
               [Node Package 3 (Some ''lang'') False [] []
                  [Node Class 4 (Some ''Object'') False [] [] [] []] [],
                Node Package 5 (Some ''lib'') False [] [] [] []] [],
             Node Package 6 (Some ''p'') False [] []
               [Node Class 7 (Some ''C'') False [] [] []
                  [Node Reference 8 (Some ''Object'') False ''p.wlk:1'' [] [] []]] []]
            []"
    by blast
  have i: "inj (\<lambda>k :: nat. k)" by (simp add: inj_def)
  have n: "nodes env =
     [env,
      Node Package 2 (Some ''wollok'') False [] []
               [Node Package 3 (Some ''lang'') False [] []
                  [Node Class 4 (Some ''Object'') False [] [] [] []] [],
                Node Package 5 (Some ''lib'') False [] [] [] []] [],
      Node Package 3 (Some ''lang'') False [] []
                  [Node Class 4 (Some ''Object'') False [] [] [] []] [],
      Node Class 4 (Some ''Object'') False [] [] [] [],
      Node Package 5 (Some ''lib'') False [] [] [] [],
      Node Package 6 (Some ''p'') False [] []
               [Node Class 7 (Some ''C'') False [] [] []
                  [Node Reference 8 (Some ''Object'') False ''p.wlk:1'' [] [] []]] [],
      Node Class 7 (Some ''C'') False [] [] []
                  [Node Reference 8 (Some ''Object'') False ''p.wlk:1'' [] [] []],
      Node Reference 8 (Some ''Object'') False ''p.wlk:1'' [] [] []]"
    unfolding e by (simp add: nodes_def traversal_unfold children_def)
  from link_identities[OF i l] have
    c1: "kind env = Environment" "distinct (map id' (nodes env))"
    and c2: "\<forall>n \<in> set (nodes env). getNodeById st (id' n) = Inr n"
    and c3: "\<forall>i. i \<notin> id' ` set (nodes env) \<longrightarrow> getNodeById st i = Inl (MissingNode i)"
    by blast+
  have "getNodeById st (id' env) = Inr env" using c2 nodes_root[of env] by blast
  then have g1: "getNodeById st 1 = Inr env" by (simp add: e)
  have "getNodeById st (id' (Node Package 5 (Some ''lib'') False [] [] [] []))
      = Inr (Node Package 5 (Some ''lib'') False [] [] [] [])"
    using c2 unfolding n by simp
  then have g5: "getNodeById st 5 = Inr (Node Package 5 (Some ''lib'') False [] [] [] [])" by simp
  have "99 \<notin> id' ` set (nodes env)" unfolding n by (simp add: e)
  then have g99: "getNodeById st 99 = Inl (MissingNode 99)" using c3 by blast
  have "id' env = 1" by (simp add: e)
  with l c1 g1 g5 g99 show ?thesis by blast
qed

end
